theory Spec2Isabelle
  imports Complex_Main "HOL-Library.Word"
begin

unbundle bit_operations_syntax

section \<open>Conventions of the embedding\<close>

text \<open>
  The repository \<^verbatim>\<open>blocknative/bloom\<close> holds a partitioned Bloom filter
  (\<^verbatim>\<open>bloom.go\<close>, type \<^verbatim>\<open>Filter\<close>), a scalable filter built from it
  (\<^verbatim>\<open>scalable.go\<close>, type \<^verbatim>\<open>ScalableFilter\<close>) and the older package
  \<^verbatim>\<open>partitioned\<close> (type \<^verbatim>\<open>PartitionedBloom\<close>).

  \<^item> Go's \<^verbatim>\<open>uint\<close> is taken to be 64 bits wide. Values of that type are natural
    numbers here, and the two places where the code does arithmetic on them
    (\<^verbatim>\<open>c++\<close> and the index computation of \<^verbatim>\<open>bits\<close>) carry \<open>mod 2 ^ 64\<close>.
  \<^item> Go's \<^verbatim>\<open>float64\<close> is idealised as \<open>real\<close>: rounding, infinities and NaN are
    not represented. The parameter formulas are therefore those of the code for
    \<open>0 < e < 1\<close> and \<open>0 < p < 1\<close>, where all intermediate values are finite.
  \<^item> The conversion \<^verbatim>\<open>uint(x)\<close> of a float is \<open>nat \<lceil>x\<rceil>\<close> after \<^verbatim>\<open>math.Ceil\<close>, which is
    0 for a negative \<open>x\<close>; Go leaves the conversion of a negative value to the
    implementation.
  \<^item> A run-time panic is a value: every operation that can panic returns
    \<open>panic + result\<close>, with \<open>Inl\<close> the panic.
  \<^item> Methods with a pointer receiver take the object and return the updated object.
  \<^item> A hash object can be shared: an option built by \<^verbatim>\<open>WithHash\<close> holds one object, and a
    scalable filter hands its options to every sub-filter. Every use of a hash starts with
    \<^verbatim>\<open>Reset\<close>, so no result depends on the state another filter left in it, and each
    filter record carries its own copy.
\<close>

datatype panic =
    PanicNZero          \<comment> \<open>\<^verbatim>\<open>panic("n == 0")\<close>\<close>
  | NilDereference      \<comment> \<open>method call on a nil \<^verbatim>\<open>hash.Hash\<close>\<close>
  | SliceBounds         \<comment> \<open>slice bounds out of range\<close>
  | IndexOutOfRange     \<comment> \<open>index out of range\<close>
  | DivideByZero        \<comment> \<open>integer divide by zero\<close>

type_synonym byte = "8 word"

section \<open>Collaborators: hash, byte order, bit set\<close>

text \<open>
  A \<^verbatim>\<open>hash.Hash\<close> is an object with \<^verbatim>\<open>Reset\<close>, \<^verbatim>\<open>Write\<close> and \<^verbatim>\<open>Sum\<close>. Its state
  is the sequence of bytes written since the last reset; \<open>sum_fn\<close> is the digest the
  implementation computes from them.
\<close>

record hash =
  written :: "byte list"
  sum_fn :: "byte list \<Rightarrow> byte list"

definition hash_Reset :: "hash \<Rightarrow> hash" where
  "hash_Reset hh = hh\<lparr>written := []\<rparr>"

definition hash_Write :: "hash \<Rightarrow> byte list \<Rightarrow> hash" where
  "hash_Write hh data = hh\<lparr>written := written hh @ data\<rparr>"

definition hash_Sum :: "hash \<Rightarrow> byte list \<Rightarrow> byte list" where
  "hash_Sum hh pre = pre @ sum_fn hh (written hh)"

text \<open>
  \<^verbatim>\<open>hash/fnv\<close> of the Go standard library, \<^verbatim>\<open>fnv.New64()\<close>: 64-bit FNV-1. Each byte
  multiplies the state by the prime and is then xor-ed in; \<^verbatim>\<open>Sum\<close> appends the state
  as eight bytes, most significant first.
\<close>

definition offset64 :: "64 word" where
  "offset64 = 14695981039346656037"

definition prime64 :: "64 word" where
  "prime64 = 1099511628211"

definition fnv64_Write :: "64 word \<Rightarrow> byte list \<Rightarrow> 64 word" where
  "fnv64_Write st data = foldl (\<lambda>hv c. (hv * prime64) XOR ucast c) st data"

definition fnv64_Sum :: "64 word \<Rightarrow> byte list" where
  "fnv64_Sum v = [ucast (drop_bit 56 v), ucast (drop_bit 48 v), ucast (drop_bit 40 v),
                  ucast (drop_bit 32 v), ucast (drop_bit 24 v), ucast (drop_bit 16 v),
                  ucast (drop_bit 8 v), ucast v]"

definition fnv_New64 :: hash where
  "fnv_New64 = \<lparr>written = [], sum_fn = (\<lambda>data. fnv64_Sum (fnv64_Write offset64 data))\<rparr>"

text \<open>
  \<^verbatim>\<open>binary.BigEndian.Uint32\<close> of the Go standard library, on a slice of four bytes.
\<close>

definition BigEndian_Uint32 :: "byte list \<Rightarrow> 32 word" where
  "BigEndian_Uint32 bytes =
     ucast (bytes ! 3) OR push_bit 8 (ucast (bytes ! 2)) OR
     push_bit 16 (ucast (bytes ! 1)) OR push_bit 24 (ucast (bytes ! 0))"

text \<open>
  \<^verbatim>\<open>bitset.BitSet\<close> of \<^verbatim>\<open>github.com/bits-and-blooms/bitset\<close>: a vector of bits with
  a length. \<^verbatim>\<open>Set\<close> beyond the length extends the vector, \<^verbatim>\<open>Test\<close> beyond the
  length is false.
\<close>

type_synonym BitSet = "bool list"

definition bitset_New :: "nat \<Rightarrow> BitSet" where
  "bitset_New len = replicate len False"

definition BitSet_Set :: "BitSet \<Rightarrow> nat \<Rightarrow> BitSet" where
  "BitSet_Set v i =
     (if i < length v then v[i := True] else v @ replicate (i - length v) False @ [True])"

definition BitSet_Test :: "BitSet \<Rightarrow> nat \<Rightarrow> bool" where
  "BitSet_Test v i = (i < length v \<and> v ! i)"

definition BitSet_ClearAll :: "BitSet \<Rightarrow> BitSet" where
  "BitSet_ClearAll v = map (\<lambda>_. False) v"

definition BitSet_Count :: "BitSet \<Rightarrow> nat" where
  "BitSet_Count v = length (filter id v)"

section \<open>Parameter calculator (\<^verbatim>\<open>bloom.go\<close>: \<^verbatim>\<open>k\<close>, \<^verbatim>\<open>m\<close>, \<^verbatim>\<open>s\<close>)\<close>

definition bloom_k :: "real \<Rightarrow> nat" where
  "bloom_k e = nat \<lceil>log 2 (1 / e)\<rceil>"

definition bloom_m :: "nat \<Rightarrow> real \<Rightarrow> real \<Rightarrow> nat" where
  "bloom_m n p e = nat \<lceil>real n / ((ln p * ln (1 - p)) / \<bar>ln e\<bar>)\<rceil>"

definition bloom_s :: "nat \<Rightarrow> nat \<Rightarrow> nat" where
  "bloom_s m k = nat \<lceil>real m / real k\<rceil>"

definition makePartitions :: "nat \<Rightarrow> nat \<Rightarrow> BitSet list" where
  "makePartitions k s = replicate k (bitset_New s)"


section \<open>Options (\<^verbatim>\<open>option.go\<close>)\<close>

record params =
  p_h :: "hash option"   \<comment> \<open>\<^verbatim>\<open>h hash.Hash\<close>, \<open>None\<close> is nil\<close>
  p_e :: real
  p_p :: real

text \<open>
  An \<^verbatim>\<open>Option\<close> is a closure over \<^verbatim>\<open>*params\<close>. The type \<^verbatim>\<open>params\<close> is not
  exported, so the only closures are those the three functions \<^verbatim>\<open>WithHash\<close>,
  \<^verbatim>\<open>WithErrorRate\<close> and \<^verbatim>\<open>WithFillRatio\<close> return. A value of the datatype is one
  such call with its argument; \<open>apply_Option\<close> is the effect of the call followed by
  the closure, including the defaulting done before the closure is built.
  \<^verbatim>\<open>cityhash.New64()\<close> is not part of the repository and is the parameter
  \<open>cityhash_New64\<close> wherever it is needed.
\<close>

datatype Option = WithHash "hash option" | WithErrorRate real | WithFillRatio real

fun apply_Option :: "hash \<Rightarrow> Option \<Rightarrow> params \<Rightarrow> params" where
  "apply_Option cityhash_New64 (WithHash hh) ps =
     ps\<lparr>p_h := Some (case hh of None \<Rightarrow> cityhash_New64 | Some x \<Rightarrow> x)\<rparr>"
| "apply_Option cityhash_New64 (WithErrorRate e) ps =
     ps\<lparr>p_e := (if e \<le> 0 then 1 / 1000 else e)\<rparr>"
| "apply_Option cityhash_New64 (WithFillRatio p) ps =
     ps\<lparr>p_p := (if p \<le> 0 then 1 / 2 else p)\<rparr>"

definition withDefault :: "Option list \<Rightarrow> Option list" where
  "withDefault opt = [WithHash None, WithErrorRate 0, WithFillRatio 0] @ opt"

text \<open>The zero value of \<^verbatim>\<open>params\<close> and the loop \<^verbatim>\<open>for _, option := range ...\<close>.\<close>

definition zero_params :: params where
  "zero_params = \<lparr>p_h = None, p_e = 0, p_p = 0\<rparr>"

definition apply_Options :: "hash \<Rightarrow> Option list \<Rightarrow> params \<Rightarrow> params" where
  "apply_Options cityhash_New64 opts ps = foldl (\<lambda>acc ob. apply_Option cityhash_New64 ob acc) ps opts"

section \<open>The partitioned filter of \<^verbatim>\<open>bloom.go\<close>\<close>

record Filter =
  f_params :: params
  f_m :: nat
  f_k :: nat
  f_n :: nat
  f_c :: nat
  f_s :: nat
  f_b :: "BitSet list"
  f_bs :: "nat list"

definition bloom_New :: "hash \<Rightarrow> nat \<Rightarrow> Option list \<Rightarrow> panic + Filter" where
  "bloom_New cityhash_New64 n opt =
     (if n = 0 then Inl PanicNZero
      else
        let ps = apply_Options cityhash_New64 (withDefault opt) zero_params;
            kk = bloom_k (p_e ps);
            mm = bloom_m n (p_p ps) (p_e ps);
            ss = bloom_s mm kk
        in Inr \<lparr>f_params = ps, f_m = mm, f_k = kk, f_n = n, f_c = 0, f_s = ss,
                f_b = makePartitions kk ss, f_bs = replicate kk 0\<rparr>)"

text \<open>
  The three loops over \<^verbatim>\<open>bs[:k]\<close>. \<open>bits_loop\<close> overwrites the scratch entries with
  \<^verbatim>\<open>(uint(a) + uint(b)*uint(i)) % s\<close>; \<open>Set_loop\<close> sets bit \<open>v\<close> of partition \<open>i\<close> and
  panics when \<^verbatim>\<open>b[i]\<close> does not exist; \<open>Check_loop\<close> returns false at the first bit
  that is not set.
\<close>

fun bits_loop :: "nat \<Rightarrow> nat \<Rightarrow> nat \<Rightarrow> nat \<Rightarrow> nat list \<Rightarrow> nat list" where
  "bits_loop a b s i [] = []"
| "bits_loop a b s i (x # xs) = ((a + b * i) mod 2 ^ 64) mod s # bits_loop a b s (Suc i) xs"

fun Set_loop :: "BitSet list \<Rightarrow> nat list \<Rightarrow> panic + BitSet list" where
  "Set_loop parts [] = Inr parts"
| "Set_loop [] (v # vs) = Inl IndexOutOfRange"
| "Set_loop (x # parts) (v # vs) =
     (case Set_loop parts vs of Inl err \<Rightarrow> Inl err | Inr parts' \<Rightarrow> Inr (BitSet_Set x v # parts'))"

fun Check_loop :: "BitSet list \<Rightarrow> nat list \<Rightarrow> panic + bool" where
  "Check_loop parts [] = Inr True"
| "Check_loop [] (v # vs) = Inl IndexOutOfRange"
| "Check_loop (x # parts) (v # vs) =
     (if \<not> BitSet_Test x v then Inr False else Check_loop parts vs)"

text \<open>
  \<^verbatim>\<open>bits\<close>: reset the hash, write the item, take the digest, read \<open>a\<close> from bytes
  \<open>[4:8)\<close> and \<open>b\<close> from bytes \<open>[0:4)\<close>, fill the scratch buffer. A digest shorter
  than eight bytes is a slice-bounds panic of \<^verbatim>\<open>s[4:8]\<close> (Go panics there when the slice
  that \<^verbatim>\<open>Sum\<close> returns has no spare capacity; the statements below that need a digest ask
  for eight bytes), \<^verbatim>\<open>bs[:k]\<close> panics when \<open>k\<close> exceeds the buffer, and the first
  \<^verbatim>\<open>% s\<close> panics when \<open>s = 0\<close>. The function is shared by \<^verbatim>\<open>Filter.bits\<close> and
  \<^verbatim>\<open>PartitionedBloom.bits\<close>, whose bodies are the same.
\<close>

definition digest_bits ::
  "hash option \<Rightarrow> nat \<Rightarrow> nat \<Rightarrow> nat list \<Rightarrow> byte list \<Rightarrow> panic + (hash \<times> nat list)" where
  "digest_bits ho k s bs item =
     (case ho of
        None \<Rightarrow> Inl NilDereference
      | Some hh \<Rightarrow>
          let hh' = hash_Write (hash_Reset hh) item;
              sm = hash_Sum hh' []
          in if length sm < 8 then Inl SliceBounds
             else
               let a = unat (BigEndian_Uint32 (take 4 (drop 4 sm)));
                   b = unat (BigEndian_Uint32 (take 4 sm))
               in if length bs < k then Inl SliceBounds
                  else if 0 < k \<and> s = 0 then Inl DivideByZero
                  else Inr (hh', bits_loop a b s 0 (take k bs) @ drop k bs))"

definition Filter_bits :: "Filter \<Rightarrow> byte list \<Rightarrow> panic + Filter" where
  "Filter_bits f item =
     (case digest_bits (p_h (f_params f)) (f_k f) (f_s f) (f_bs f) item of
        Inl err \<Rightarrow> Inl err
      | Inr (hh', bs') \<Rightarrow> Inr (f\<lparr>f_params := (f_params f)\<lparr>p_h := Some hh'\<rparr>, f_bs := bs'\<rparr>))"

definition Filter_Add :: "Filter \<Rightarrow> byte list \<Rightarrow> panic + Filter" where
  "Filter_Add f item =
     (case Filter_bits f item of
        Inl err \<Rightarrow> Inl err
      | Inr f1 \<Rightarrow>
          (case Set_loop (f_b f1) (take (f_k f1) (f_bs f1)) of
             Inl err \<Rightarrow> Inl err
           | Inr parts \<Rightarrow> Inr (f1\<lparr>f_b := parts, f_c := (f_c f1 + 1) mod 2 ^ 64\<rparr>)))"

definition Filter_Check :: "Filter \<Rightarrow> byte list \<Rightarrow> panic + (bool \<times> Filter)" where
  "Filter_Check f item =
     (case Filter_bits f item of
        Inl err \<Rightarrow> Inl err
      | Inr f1 \<Rightarrow>
          (case Check_loop (f_b f1) (take (f_k f1) (f_bs f1)) of
             Inl err \<Rightarrow> Inl err
           | Inr r \<Rightarrow> Inr (r, f1)))"

definition Filter_Reset :: "Filter \<Rightarrow> panic + Filter" where
  "Filter_Reset f =
     (let parts = map BitSet_ClearAll (f_b f)
      in case p_h (f_params f) of
           None \<Rightarrow> Inl NilDereference
         | Some hh \<Rightarrow> Inr (f\<lparr>f_b := parts, f_params := (f_params f)\<lparr>p_h := Some (hash_Reset hh)\<rparr>\<rparr>))"

definition Filter_EstimatedFillRatio :: "Filter \<Rightarrow> real" where
  "Filter_EstimatedFillRatio f = 1 - exp (- real (f_c f) / real (f_s f))"

definition Filter_FillRatio :: "Filter \<Rightarrow> panic + real" where
  "Filter_FillRatio f =
     (if length (f_b f) < f_k f then Inl SliceBounds
      else Inr (sum_list (map (\<lambda>v. real (BitSet_Count v) / real (f_s f)) (take (f_k f) (f_b f)))
                / real (f_k f)))"

definition Filter_Count :: "Filter \<Rightarrow> nat" where
  "Filter_Count f = f_c f"


section \<open>The scalable filter of \<^verbatim>\<open>scalable.go\<close>\<close>

record ScalableFilter =
  sf_params :: params
  sf_opt :: "Option list"
  sf_n :: nat
  sf_c :: nat
  sf_r :: real
  sf_bfs :: "Filter list"

text \<open>
  The field \<^verbatim>\<open>r\<close> is a \<^verbatim>\<open>float32\<close> and the literal \<^verbatim>\<open>0.9\<close> is stored as the nearest
  value of that type, \<open>15099494 / 2 ^ 24\<close>.
\<close>

definition float32_0_9 :: real where
  "float32_0_9 = 15099494 / 16777216"

definition addBloomFilter :: "hash \<Rightarrow> ScalableFilter \<Rightarrow> panic + ScalableFilter" where
  "addBloomFilter cityhash_New64 sbf =
     (let e = p_e (sf_params sbf) * sf_r sbf ^ length (sf_bfs sbf)
      in case bloom_New cityhash_New64 (sf_n sbf) (sf_opt sbf @ [WithErrorRate e]) of
           Inl err \<Rightarrow> Inl err
         | Inr bf \<Rightarrow> Inr (sbf\<lparr>sf_bfs := sf_bfs sbf @ [bf]\<rparr>))"

definition NewScalable :: "hash \<Rightarrow> nat \<Rightarrow> Option list \<Rightarrow> panic + ScalableFilter" where
  "NewScalable cityhash_New64 n opt =
     (if n = 0 then Inl PanicNZero
      else addBloomFilter cityhash_New64
             \<lparr>sf_params = apply_Options cityhash_New64 (withDefault opt) zero_params,
              sf_opt = opt, sf_n = n, sf_c = 0, sf_r = float32_0_9, sf_bfs = []\<rparr>)"

definition ScalableFilter_Reset :: "hash \<Rightarrow> ScalableFilter \<Rightarrow> panic + ScalableFilter" where
  "ScalableFilter_Reset cityhash_New64 sbf =
     addBloomFilter cityhash_New64 (sbf\<lparr>sf_bfs := [], sf_c := 0\<rparr>)"

definition ScalableFilter_EstimatedFillRatio :: "ScalableFilter \<Rightarrow> panic + real" where
  "ScalableFilter_EstimatedFillRatio sbf =
     (if sf_bfs sbf = [] then Inl IndexOutOfRange
      else Inr (Filter_EstimatedFillRatio (sf_bfs sbf ! (length (sf_bfs sbf) - 1))))"

fun FillRatio_loop :: "Filter list \<Rightarrow> real \<Rightarrow> panic + real" where
  "FillRatio_loop [] t = Inr t"
| "FillRatio_loop (f # fs) t =
     (case Filter_FillRatio f of Inl err \<Rightarrow> Inl err | Inr x \<Rightarrow> FillRatio_loop fs (t + x))"

definition ScalableFilter_FillRatio :: "ScalableFilter \<Rightarrow> panic + real" where
  "ScalableFilter_FillRatio sbf =
     (case FillRatio_loop (sf_bfs sbf) 0 of
        Inl err \<Rightarrow> Inl err
      | Inr t \<Rightarrow> Inr (t / real (length (sf_bfs sbf))))"

text \<open>
  \<^verbatim>\<open>sbf.bfs[i].Add(item); sbf.c++\<close>: the sub-filter is reached through a pointer and
  updated in place.
\<close>

definition add_to :: "ScalableFilter \<Rightarrow> nat \<Rightarrow> byte list \<Rightarrow> panic + ScalableFilter" where
  "add_to sbf i item =
     (if length (sf_bfs sbf) \<le> i then Inl IndexOutOfRange
      else case Filter_Add (sf_bfs sbf ! i) item of
             Inl err \<Rightarrow> Inl err
           | Inr bf \<Rightarrow> Inr (sbf\<lparr>sf_bfs := (sf_bfs sbf)[i := bf], sf_c := (sf_c sbf + 1) mod 2 ^ 64\<rparr>))"

definition ScalableFilter_Add :: "hash \<Rightarrow> ScalableFilter \<Rightarrow> byte list \<Rightarrow> panic + ScalableFilter" where
  "ScalableFilter_Add cityhash_New64 sbf item =
     (if sf_bfs sbf = [] then Inl IndexOutOfRange
      else
        let i = length (sf_bfs sbf) - 1
        in if Filter_EstimatedFillRatio (sf_bfs sbf ! i) > p_p (sf_params sbf)
           then (case addBloomFilter cityhash_New64 sbf of
                   Inl err \<Rightarrow> Inl err
                 | Inr sbf' \<Rightarrow> add_to sbf' (i + 1) item)
           else add_to sbf i item)"

text \<open>
  \<^verbatim>\<open>for i := l - 1; i >= 0; i--\<close>: the second argument of \<open>Scalable_Check_loop\<close> is
  \<open>i + 1\<close>. A sub-filter's \<^verbatim>\<open>Check\<close> writes its scratch buffer and hash state, so the
  loop returns the updated object with the answer.
\<close>

fun Scalable_Check_loop ::
  "ScalableFilter \<Rightarrow> nat \<Rightarrow> byte list \<Rightarrow> panic + (bool \<times> ScalableFilter)" where
  "Scalable_Check_loop sbf 0 item = Inr (False, sbf)"
| "Scalable_Check_loop sbf (Suc i) item =
     (if length (sf_bfs sbf) \<le> i then Inl IndexOutOfRange
      else case Filter_Check (sf_bfs sbf ! i) item of
             Inl err \<Rightarrow> Inl err
           | Inr (r, bf) \<Rightarrow>
               let sbf' = sbf\<lparr>sf_bfs := (sf_bfs sbf)[i := bf]\<rparr>
               in if r then Inr (True, sbf') else Scalable_Check_loop sbf' i item)"

definition ScalableFilter_Check :: "ScalableFilter \<Rightarrow> byte list \<Rightarrow> panic + (bool \<times> ScalableFilter)" where
  "ScalableFilter_Check sbf item = Scalable_Check_loop sbf (length (sf_bfs sbf)) item"

definition ScalableFilter_Count :: "ScalableFilter \<Rightarrow> nat" where
  "ScalableFilter_Count sbf = sf_c sbf"

section \<open>The filter of package \<^verbatim>\<open>partitioned\<close>\<close>

text \<open>
  Modelled from the spec: \<^verbatim>\<open>partitioned.go\<close> calls \<^verbatim>\<open>bloom.K\<close>, \<^verbatim>\<open>bloom.M\<close> and
  \<^verbatim>\<open>bloom.S\<close>, exported functions of an earlier state of package \<^verbatim>\<open>bloom\<close> that are not
  among the sources. They are taken to be the formulas of the data model,
  \<open>k = ceil(log2(1/e))\<close>, \<open>m = ceil(n / ((ln(p)*ln(1-p)) / |ln(e)|))\<close>, \<open>s = ceil(m / k)\<close>,
  which are also those of \<^verbatim>\<open>k\<close>, \<^verbatim>\<open>m\<close> and \<^verbatim>\<open>s\<close> in \<^verbatim>\<open>bloom.go\<close>.
\<close>

definition bloom_K :: "real \<Rightarrow> nat" where
  "bloom_K e = nat \<lceil>log 2 (1 / e)\<rceil>"

definition bloom_M :: "nat \<Rightarrow> real \<Rightarrow> real \<Rightarrow> nat" where
  "bloom_M n p e = nat \<lceil>real n / ((ln p * ln (1 - p)) / \<bar>ln e\<bar>)\<rceil>"

definition bloom_S :: "nat \<Rightarrow> nat \<Rightarrow> nat" where
  "bloom_S m k = nat \<lceil>real m / real k\<rceil>"

record PartitionedBloom =
  pb_h :: "hash option"
  pb_m :: nat
  pb_k :: nat
  pb_p :: real
  pb_e :: real
  pb_n :: nat
  pb_c :: nat
  pb_s :: nat
  pb_b :: "BitSet list"
  pb_bs :: "nat list"

definition partitioned_New :: "nat \<Rightarrow> PartitionedBloom" where
  "partitioned_New n =
     (let p = 1 / 2;
          e = 1 / 1000;
          k = bloom_K e;
          m = bloom_M n p e;
          s = bloom_S m k
      in \<lparr>pb_h = Some fnv_New64, pb_m = m, pb_k = k, pb_p = p, pb_e = e, pb_n = n,
          pb_c = 0, pb_s = s, pb_b = makePartitions k s, pb_bs = replicate k 0\<rparr>)"

definition PartitionedBloom_SetHasher :: "PartitionedBloom \<Rightarrow> hash option \<Rightarrow> PartitionedBloom" where
  "PartitionedBloom_SetHasher bf hh = bf\<lparr>pb_h := hh\<rparr>"

definition PartitionedBloom_SetErrorProbability :: "PartitionedBloom \<Rightarrow> real \<Rightarrow> PartitionedBloom" where
  "PartitionedBloom_SetErrorProbability bf e = bf\<lparr>pb_e := e\<rparr>"

definition PartitionedBloom_Reset :: "PartitionedBloom \<Rightarrow> PartitionedBloom" where
  "PartitionedBloom_Reset bf =
     (let k = bloom_K (pb_e bf);
          m = bloom_M (pb_n bf) (pb_p bf) (pb_e bf);
          s = bloom_S m k
      in bf\<lparr>pb_k := k, pb_m := m, pb_s := s, pb_b := makePartitions k s,
            pb_bs := replicate k 0,
            pb_h := (case pb_h bf of None \<Rightarrow> Some fnv_New64 | Some hh \<Rightarrow> Some (hash_Reset hh))\<rparr>)"

definition PartitionedBloom_bits :: "PartitionedBloom \<Rightarrow> byte list \<Rightarrow> panic + PartitionedBloom" where
  "PartitionedBloom_bits bf item =
     (case digest_bits (pb_h bf) (pb_k bf) (pb_s bf) (pb_bs bf) item of
        Inl err \<Rightarrow> Inl err
      | Inr (hh', bs') \<Rightarrow> Inr (bf\<lparr>pb_h := Some hh', pb_bs := bs'\<rparr>))"

definition PartitionedBloom_Add :: "PartitionedBloom \<Rightarrow> byte list \<Rightarrow> panic + PartitionedBloom" where
  "PartitionedBloom_Add bf item =
     (case PartitionedBloom_bits bf item of
        Inl err \<Rightarrow> Inl err
      | Inr bf1 \<Rightarrow>
          (case Set_loop (pb_b bf1) (take (pb_k bf1) (pb_bs bf1)) of
             Inl err \<Rightarrow> Inl err
           | Inr parts \<Rightarrow> Inr (bf1\<lparr>pb_b := parts, pb_c := (pb_c bf1 + 1) mod 2 ^ 64\<rparr>)))"

definition PartitionedBloom_Check :: "PartitionedBloom \<Rightarrow> byte list \<Rightarrow> panic + (bool \<times> PartitionedBloom)" where
  "PartitionedBloom_Check bf item =
     (case PartitionedBloom_bits bf item of
        Inl err \<Rightarrow> Inl err
      | Inr bf1 \<Rightarrow>
          (case Check_loop (pb_b bf1) (take (pb_k bf1) (pb_bs bf1)) of
             Inl err \<Rightarrow> Inl err
           | Inr r \<Rightarrow> Inr (r, bf1)))"

definition PartitionedBloom_Count :: "PartitionedBloom \<Rightarrow> nat" where
  "PartitionedBloom_Count bf = pb_c bf"


section \<open>Sequences of calls\<close>

text \<open>
  A client of a filter is a sequence of method calls. A panic ends the run; the values
  returned by the queries are dropped, the object they leave behind is kept.
\<close>

datatype Filter_op = FAdd "byte list" | FCheck "byte list" | FReset

fun Filter_step :: "Filter \<Rightarrow> Filter_op \<Rightarrow> panic + Filter" where
  "Filter_step f (FAdd item) = Filter_Add f item"
| "Filter_step f (FCheck item) =
     (case Filter_Check f item of Inl err \<Rightarrow> Inl err | Inr (r, f') \<Rightarrow> Inr f')"
| "Filter_step f FReset = Filter_Reset f"

fun Filter_run :: "Filter \<Rightarrow> Filter_op list \<Rightarrow> panic + Filter" where
  "Filter_run f [] = Inr f"
| "Filter_run f (x # xs) =
     (case Filter_step f x of Inl err \<Rightarrow> Inl err | Inr f' \<Rightarrow> Filter_run f' xs)"

datatype Scalable_op =
    SAdd "byte list" | SCheck "byte list" | SReset
  | SFillRatio | SEstimatedFillRatio | SCount

fun Scalable_step :: "hash \<Rightarrow> ScalableFilter \<Rightarrow> Scalable_op \<Rightarrow> panic + ScalableFilter" where
  "Scalable_step ch sbf (SAdd item) = ScalableFilter_Add ch sbf item"
| "Scalable_step ch sbf (SCheck item) =
     (case ScalableFilter_Check sbf item of Inl err \<Rightarrow> Inl err | Inr (r, sbf') \<Rightarrow> Inr sbf')"
| "Scalable_step ch sbf SReset = ScalableFilter_Reset ch sbf"
| "Scalable_step ch sbf SFillRatio =
     (case ScalableFilter_FillRatio sbf of Inl err \<Rightarrow> Inl err | Inr x \<Rightarrow> Inr sbf)"
| "Scalable_step ch sbf SEstimatedFillRatio =
     (case ScalableFilter_EstimatedFillRatio sbf of Inl err \<Rightarrow> Inl err | Inr x \<Rightarrow> Inr sbf)"
| "Scalable_step ch sbf SCount = Inr sbf"

fun Scalable_run :: "hash \<Rightarrow> ScalableFilter \<Rightarrow> Scalable_op list \<Rightarrow> panic + ScalableFilter" where
  "Scalable_run ch sbf [] = Inr sbf"
| "Scalable_run ch sbf (x # xs) =
     (case Scalable_step ch sbf x of Inl err \<Rightarrow> Inl err | Inr sbf' \<Rightarrow> Scalable_run ch sbf' xs)"

text \<open>Calls on a \<^verbatim>\<open>PartitionedBloom\<close>, with its two setters.\<close>

datatype Partitioned_op =
    PAdd "byte list" | PCheck "byte list" | PReset
  | PSetHasher "hash option" | PSetErrorProbability real

fun Partitioned_step :: "PartitionedBloom \<Rightarrow> Partitioned_op \<Rightarrow> panic + PartitionedBloom" where
  "Partitioned_step bf (PAdd item) = PartitionedBloom_Add bf item"
| "Partitioned_step bf (PCheck item) =
     (case PartitionedBloom_Check bf item of Inl err \<Rightarrow> Inl err | Inr (r, bf') \<Rightarrow> Inr bf')"
| "Partitioned_step bf PReset = Inr (PartitionedBloom_Reset bf)"
| "Partitioned_step bf (PSetHasher hh) = Inr (PartitionedBloom_SetHasher bf hh)"
| "Partitioned_step bf (PSetErrorProbability e) = Inr (PartitionedBloom_SetErrorProbability bf e)"

fun Partitioned_run :: "PartitionedBloom \<Rightarrow> Partitioned_op list \<Rightarrow> panic + PartitionedBloom" where
  "Partitioned_run bf [] = Inr bf"
| "Partitioned_run bf (x # xs) =
     (case Partitioned_step bf x of Inl err \<Rightarrow> Inl err | Inr bf' \<Rightarrow> Partitioned_run bf' xs)"



section \<open>Notions used in the statements\<close>

text \<open>The two halves of a digest, as \<^verbatim>\<open>bits\<close> reads them.\<close>

definition digest_a :: "byte list \<Rightarrow> nat" where
  "digest_a D = unat (BigEndian_Uint32 (take 4 (drop 4 D)))"

definition digest_b :: "byte list \<Rightarrow> nat" where
  "digest_b D = unat (BigEndian_Uint32 (take 4 D))"

text \<open>The index \<^verbatim>\<open>bits\<close> stores for partition \<open>i\<close>.\<close>

definition stored_index :: "byte list \<Rightarrow> nat \<Rightarrow> nat \<Rightarrow> nat" where
  "stored_index D s i = ((digest_a D + digest_b D * i) mod 2 ^ 64) mod s"

text \<open>
  A filter holds an item when \<^verbatim>\<open>bits\<close> succeeds on it and every partition has
  the item's bit set.
\<close>

definition Filter_holds :: "Filter \<Rightarrow> byte list \<Rightarrow> bool" where
  "Filter_holds f item =
     (case p_h (f_params f) of
        None \<Rightarrow> False
      | Some hh \<Rightarrow>
          8 \<le> length (sum_fn hh item) \<and> f_k f \<le> length (f_bs f) \<and> f_k f \<le> length (f_b f) \<and>
          (f_k f = 0 \<or> 0 < f_s f) \<and>
          list_all (\<lambda>i. BitSet_Test (f_b f ! i) (stored_index (sum_fn hh item) (f_s f) i))
                   [0..<f_k f])"

text \<open>What the answer of \<^verbatim>\<open>Check\<close> depends on.\<close>

definition Filter_same :: "Filter \<Rightarrow> Filter \<Rightarrow> bool" where
  "Filter_same f g =
     (f_k f = f_k g \<and> f_s f = f_s g \<and> f_b f = f_b g \<and> length (f_bs f) = length (f_bs g) \<and>
      map_option sum_fn (p_h (f_params f)) = map_option sum_fn (p_h (f_params g)))"

text \<open>
  The shape of a sub-filter of a scalable filter: built by \<^verbatim>\<open>New\<close> from the scalable
  filter's capacity and options, with the same digest function.
\<close>

definition sub_ok :: "ScalableFilter \<Rightarrow> Filter \<Rightarrow> bool" where
  "sub_ok sbf f =
     (length (f_b f) = f_k f \<and> length (f_bs f) = f_k f \<and> f_n f = sf_n sbf \<and>
      p_h (f_params f) \<noteq> None \<and>
      map_option sum_fn (p_h (f_params f)) = map_option sum_fn (p_h (sf_params sbf)) \<and>
      (f_k f = 0 \<or> 0 < f_s f \<or> 1 \<le> p_p (sf_params sbf)))"

definition Scalable_inv :: "hash \<Rightarrow> ScalableFilter \<Rightarrow> bool" where
  "Scalable_inv ch sbf =
     (sf_bfs sbf \<noteq> [] \<and> 0 < sf_n sbf \<and> 0 < sf_r sbf \<and>
      sf_params sbf = apply_Options ch (withDefault (sf_opt sbf)) zero_params \<and>
      list_all (sub_ok sbf) (sf_bfs sbf))"

text \<open>A scalable filter holds an item when one of its sub-filters does.\<close>

definition Scalable_holds :: "ScalableFilter \<Rightarrow> byte list \<Rightarrow> bool" where
  "Scalable_holds sbf item = list_ex (\<lambda>f. Filter_holds f item) (sf_bfs sbf)"

text \<open>
  A filter is ready when none of its operations can panic: it has a hash whose digests
  have at least eight bytes, its scratch buffer and its partitions are as many as \<open>k\<close>,
  and the partitions are not empty.
\<close>

definition Filter_ready :: "Filter \<Rightarrow> bool" where
  "Filter_ready f =
     (case p_h (f_params f) of
        None \<Rightarrow> False
      | Some hh \<Rightarrow>
          (\<forall>x. 8 \<le> length (sum_fn hh x)) \<and> f_k f \<le> length (f_bs f) \<and>
          f_k f \<le> length (f_b f) \<and> (f_k f = 0 \<or> 0 < f_s f))"

text \<open>
  The 32-bit big-endian value of the four bytes of \<open>D\<close> that start at \<open>off\<close>, written
  out as a sum.
\<close>

definition be32 :: "byte list \<Rightarrow> nat \<Rightarrow> nat" where
  "be32 D off = unat (D ! off) * 2 ^ 24 + unat (D ! (off + 1)) * 2 ^ 16 +
                unat (D ! (off + 2)) * 2 ^ 8 + unat (D ! (off + 3))"

section \<open>Numerical facts\<close>

text \<open>
  Partial sums of the exponential series bound \<open>exp\<close> from below on the non-negative
  reals, and with the remainder term from above on \<open>[0, 1]\<close>.
\<close>

lemma exp_lower_partial:
  fixes x :: real
  assumes "0 \<le> x"
  shows "(\<Sum>m<n. x ^ m / fact m) \<le> exp x"
proof -
  obtain t where t: "exp x = (\<Sum>m<n. (x ^ m) / fact m) + (exp t / fact n) * x ^ n"
    using Maclaurin_exp_le [of x n] by blast
  have "0 \<le> (exp t / fact n) * x ^ n"
    using assms by simp
  with t show ?thesis by linarith
qed

lemma exp_upper_partial:
  fixes x :: real
  assumes "0 \<le> x" "x \<le> 1"
  shows "exp x \<le> (\<Sum>m<n. x ^ m / fact m) + 3 * x ^ n / fact n"
proof -
  obtain t where t: "\<bar>t\<bar> \<le> \<bar>x\<bar>" "exp x = (\<Sum>m<n. (x ^ m) / fact m) + (exp t / fact n) * x ^ n"
    using Maclaurin_exp_le [of x n] by blast
  have "t \<le> 1" using t(1) assms by linarith
  then have "exp t \<le> exp 1" by simp
  also have "\<dots> \<le> 3" by (rule exp_le)
  finally have e3: "exp t \<le> 3" .
  have "(exp t / fact n) * x ^ n \<le> (3 / fact n) * x ^ n"
    using assms e3 by (intro mult_right_mono divide_right_mono) auto
  with t(2) show ?thesis by simp
qed

lemma ln2_lower: "69314 / 100000 \<le> ln (2::real)"
proof -
  have "exp (69314 / 100000 :: real)
          \<le> (\<Sum>m<8. (69314 / 100000) ^ m / fact m) + 3 * (69314 / 100000) ^ 8 / fact 8"
    by (rule exp_upper_partial) simp_all
  also have "\<dots> \<le> 2"
    by (simp add: lessThan_nat_numeral lessThan_Suc fact_numeral power_divide)
  finally have "exp (69314 / 100000 :: real) \<le> exp (ln 2)" by simp
  then show ?thesis by (simp only: exp_le_cancel_iff)
qed

lemma ln2_upper: "ln (2::real) \<le> 69315 / 100000"
proof -
  have "(2::real) \<le> (\<Sum>m<8. (69315 / 100000) ^ m / fact m)"
    by (simp add: lessThan_nat_numeral lessThan_Suc fact_numeral power_divide)
  also have "\<dots> \<le> exp (69315 / 100000)"
    by (rule exp_lower_partial) simp
  finally have "exp (ln 2) \<le> exp (69315 / 100000 :: real)" by simp
  then show ?thesis by (simp only: exp_le_cancel_iff)
qed

lemma ln54_lower: "22314 / 100000 \<le> ln (5 / 4 :: real)"
proof -
  have "exp (22314 / 100000 :: real)
          \<le> (\<Sum>m<6. (22314 / 100000) ^ m / fact m) + 3 * (22314 / 100000) ^ 6 / fact 6"
    by (rule exp_upper_partial) simp_all
  also have "\<dots> \<le> 5 / 4"
    by (simp add: lessThan_nat_numeral lessThan_Suc fact_numeral power_divide)
  finally have "exp (22314 / 100000 :: real) \<le> exp (ln (5 / 4))" by simp
  then show ?thesis by (simp only: exp_le_cancel_iff)
qed

lemma ln54_upper: "ln (5 / 4 :: real) \<le> 22315 / 100000"
proof -
  have "(5 / 4 :: real) \<le> (\<Sum>m<6. (22315 / 100000) ^ m / fact m)"
    by (simp add: lessThan_nat_numeral lessThan_Suc fact_numeral power_divide)
  also have "\<dots> \<le> exp (22315 / 100000)"
    by (rule exp_lower_partial) simp
  finally have "exp (ln (5 / 4)) \<le> exp (22315 / 100000 :: real)" by simp
  then show ?thesis by (simp only: exp_le_cancel_iff)
qed

lemma ln10_split: "ln (10 :: real) = 3 * ln 2 + ln (5 / 4)"
proof -
  have "ln ((2::real) ^ 3 * (5 / 4)) = ln (2 ^ 3) + ln (5 / 4 :: real)"
    by (rule ln_mult_pos) simp_all
  moreover have "ln ((2::real) ^ 3) = real 3 * ln 2"
    by (rule ln_realpow)
  ultimately show ?thesis by simp
qed

lemma ln1000_split: "ln (1000 :: real) = 9 * ln 2 + 3 * ln (5 / 4)"
proof -
  have "ln ((10::real) ^ 3) = real 3 * ln 10"
    by (rule ln_realpow)
  then show ?thesis using ln10_split by simp
qed

text \<open>The quotient \<open>|ln 0.001| / (ln 0.5 * ln 0.5)\<close> lies in \<open>(14.377, 14.378]\<close>.\<close>

lemma quot_upper: "1000 * ln (1000 :: real) \<le> 14378 * (ln 2)\<^sup>2"
proof -
  define x where "x = ln (2::real)"
  define a where "a = (69314 / 100000 :: real)"
  have xa: "a \<le> x" unfolding x_def a_def by (rule ln2_lower)
  have "0 \<le> (x - a) * (14378 * (x + a) - 9000)"
    using xa by (intro mult_nonneg_nonneg) (simp_all add: a_def)
  then have "14378 * a\<^sup>2 - 9000 * a \<le> 14378 * x\<^sup>2 - 9000 * x"
    by (simp add: algebra_simps power2_eq_square)
  moreover have "3000 * (22315 / 100000) \<le> 14378 * a\<^sup>2 - 9000 * a"
    by (simp add: a_def power2_eq_square)
  moreover have "3000 * ln (5 / 4 :: real) \<le> 3000 * (22315 / 100000)"
    using ln54_upper by simp
  ultimately have "9000 * x + 3000 * ln (5 / 4 :: real) \<le> 14378 * x\<^sup>2"
    by linarith
  then show ?thesis unfolding x_def by (simp only: ln1000_split) simp
qed

lemma quot_lower: "14377 * (ln 2)\<^sup>2 < 1000 * ln (1000 :: real)"
proof -
  define x where "x = ln (2::real)"
  define a where "a = (69315 / 100000 :: real)"
  have xa: "x \<le> a" unfolding x_def a_def by (rule ln2_upper)
  have x0: "69314 / 100000 \<le> x" unfolding x_def by (rule ln2_lower)
  have "0 \<le> (a - x) * (14377 * (a + x) - 9000)"
    using xa x0 by (intro mult_nonneg_nonneg) (simp_all add: a_def)
  then have "14377 * x\<^sup>2 - 9000 * x \<le> 14377 * a\<^sup>2 - 9000 * a"
    by (simp add: algebra_simps power2_eq_square)
  moreover have "14377 * a\<^sup>2 - 9000 * a < 3000 * (22314 / 100000)"
    by (simp add: a_def power2_eq_square)
  moreover have "3000 * (22314 / 100000) \<le> 3000 * ln (5 / 4 :: real)"
    using ln54_lower by simp
  ultimately have "14377 * x\<^sup>2 < 9000 * x + 3000 * ln (5 / 4 :: real)"
    by linarith
  then show ?thesis unfolding x_def by (simp only: ln1000_split) simp
qed

lemma m_quotient:
  "real n / ((ln (1 / 2) * ln (1 - 1 / 2)) / \<bar>ln (1 / 1000 :: real)\<bar>)
     = real n * ln 1000 / (ln 2)\<^sup>2"
proof -
  have h: "ln (1 / 2 :: real) = - ln 2" by (simp add: ln_div)
  have t: "ln (1 / 1000 :: real) = - ln 1000" by (simp add: ln_div)
  have "0 < ln (1000 :: real)" by simp
  then have a: "\<bar>ln (1 / 1000 :: real)\<bar> = ln 1000" unfolding t by simp
  show ?thesis
    by (simp add: a h power2_eq_square)
qed

lemma m_ceiling_1000:
  "\<lceil>real 1000 * ln 1000 / (ln 2)\<^sup>2\<rceil> = (14378 :: int)"
proof -
  have p: "0 < (ln (2::real))\<^sup>2" by simp
  have u: "real 1000 * ln 1000 / (ln 2)\<^sup>2 \<le> 14378"
    using quot_upper p by (simp add: pos_divide_le_eq)
  have l: "14377 < real 1000 * ln 1000 / (ln 2)\<^sup>2"
    using quot_lower p by (simp add: pos_less_divide_eq)
  show ?thesis
    by (rule ceiling_unique) (use u l in simp_all)
qed

lemma m_ceiling_1:
  "\<lceil>real 1 * ln 1000 / (ln 2)\<^sup>2\<rceil> = (15 :: int)"
proof -
  have p: "0 < (ln (2::real))\<^sup>2" by simp
  have "1000 * ln (1000 :: real) \<le> 15000 * (ln 2)\<^sup>2"
    using quot_upper p by linarith
  then have u: "real 1 * ln 1000 / (ln 2)\<^sup>2 \<le> 15"
    using p by (simp add: pos_divide_le_eq)
  have "14000 * (ln 2)\<^sup>2 < 1000 * ln (1000 :: real)"
    using quot_lower p by linarith
  then have l: "14 < real 1 * ln 1000 / (ln 2)\<^sup>2"
    using p by (simp add: pos_less_divide_eq)
  show ?thesis
    by (rule ceiling_unique) (use u l in simp_all)
qed

lemma log2_1000: "\<lceil>log 2 (1 / (1 / 1000 :: real))\<rceil> = 10"
proof -
  have "\<lceil>log (real 2) (real 1000)\<rceil> = int 9 + 1"
    by (rule ceiling_log_nat_eq_if) simp_all
  then show ?thesis by simp
qed

lemma bloom_k_default: "bloom_k (1 / 1000) = 10"
  unfolding bloom_k_def using log2_1000 by simp

lemma bloom_m_1000: "bloom_m 1000 (1 / 2) (1 / 1000) = 14378"
  unfolding bloom_m_def m_quotient using m_ceiling_1000 by simp

lemma bloom_m_1: "bloom_m 1 (1 / 2) (1 / 1000) = 15"
  unfolding bloom_m_def m_quotient using m_ceiling_1 by simp

lemma bloom_m_0: "bloom_m 0 p e = 0"
  by (simp add: bloom_m_def)

lemma bloom_s_14378: "bloom_s 14378 10 = 1438"
proof -
  have "\<lceil>real 14378 / real 10\<rceil> = (1438 :: int)"
    by (rule ceiling_unique) simp_all
  then show ?thesis by (simp add: bloom_s_def)
qed

lemma bloom_s_15: "bloom_s 15 10 = 2"
proof -
  have "\<lceil>real 15 / real 10\<rceil> = (2 :: int)"
    by (rule ceiling_unique) simp_all
  then show ?thesis by (simp add: bloom_s_def)
qed

lemma bloom_s_0: "bloom_s 0 k = 0"
  by (simp add: bloom_s_def)

lemma bloom_KMS: "bloom_K = bloom_k" "bloom_M = bloom_m" "bloom_S = bloom_s"
  by (intro ext, simp add: bloom_K_def bloom_k_def bloom_M_def bloom_m_def bloom_S_def bloom_s_def)+


section \<open>C7: the parameter calculator\<close>

text \<open>
  Claim C7. The parameter calculator computes \<open>k(e) = ceil(log2(1/e))\<close>, so that
  \<open>k(0.001) = 10\<close>; for \<open>n = 1000\<close>, \<open>p = 0.5\<close> and \<open>e = 0.001\<close> the derived \<open>m\<close> and
  \<open>s\<close> are the integers \<open>ceil(n / ((ln(p)*ln(1-p)) / |ln(e)|))\<close> and \<open>ceil(m / k)\<close>,
  which are 14378 and 1438.
\<close>

theorem C7_parameter_values:
  "bloom_k e = nat \<lceil>log 2 (1 / e)\<rceil> \<and>
   bloom_k (1 / 1000) = 10 \<and>
   bloom_m 1000 (1 / 2) (1 / 1000)
     = nat \<lceil>real 1000 / ((ln (1 / 2) * ln (1 - 1 / 2)) / \<bar>ln (1 / 1000)\<bar>)\<rceil> \<and>
   bloom_m 1000 (1 / 2) (1 / 1000) = 14378 \<and>
   bloom_s (bloom_m 1000 (1 / 2) (1 / 1000)) (bloom_k (1 / 1000))
     = nat \<lceil>real (bloom_m 1000 (1 / 2) (1 / 1000)) / real (bloom_k (1 / 1000))\<rceil> \<and>
   bloom_s (bloom_m 1000 (1 / 2) (1 / 1000)) (bloom_k (1 / 1000)) = 1438"
proof -
  have k: "bloom_k e = nat \<lceil>log 2 (1 / e)\<rceil>"
    by (simp only: bloom_k_def)
  have m: "bloom_m 1000 (1 / 2) (1 / 1000)
             = nat \<lceil>real 1000 / ((ln (1 / 2) * ln (1 - 1 / 2)) / \<bar>ln (1 / 1000)\<bar>)\<rceil>"
    by (simp only: bloom_m_def)
  have s: "bloom_s (bloom_m 1000 (1 / 2) (1 / 1000)) (bloom_k (1 / 1000))
             = nat \<lceil>real (bloom_m 1000 (1 / 2) (1 / 1000)) / real (bloom_k (1 / 1000))\<rceil>"
    by (simp only: bloom_s_def)
  have s': "bloom_s (bloom_m 1000 (1 / 2) (1 / 1000)) (bloom_k (1 / 1000)) = 1438"
    by (simp only: bloom_m_1000 bloom_k_default bloom_s_14378)
  from k m s s' bloom_k_default bloom_m_1000 show ?thesis by blast
qed


section \<open>The loops over the scratch buffer\<close>

lemma bits_loop_length: "length (bits_loop a b s i xs) = length xs"
  by (induction xs arbitrary: i) simp_all

lemma bits_loop_nth:
  "j < length xs \<Longrightarrow> bits_loop a b s i xs ! j = ((a + b * (i + j)) mod 2 ^ 64) mod s"
proof (induction xs arbitrary: i j)
  case Nil
  then show ?case by simp
next
  case (Cons x xs)
  show ?case
  proof (cases j)
    case 0
    then show ?thesis by simp
  next
    case (Suc j')
    with Cons.prems have "j' < length xs" by simp
    from Cons.IH [OF this, of "Suc i"] Suc show ?thesis by simp
  qed
qed

lemma bits_loop_eq_map:
  "bits_loop a b s 0 xs = map (\<lambda>i. ((a + b * i) mod 2 ^ 64) mod s) [0..<length xs]"
  by (rule nth_equalityI) (simp_all add: bits_loop_length bits_loop_nth)

lemma stored_index_map:
  "k \<le> length bs \<Longrightarrow>
   bits_loop (digest_a D) (digest_b D) s 0 (take k bs) = map (stored_index D s) [0..<k]"
  by (simp add: bits_loop_eq_map stored_index_def min_absorb2)

lemma digest_bits_Inr:
  "digest_bits ho k s bs item = Inr (hh', bs') \<longleftrightarrow>
     (\<exists>hh. ho = Some hh \<and> 8 \<le> length (sum_fn hh item) \<and> k \<le> length bs \<and> (k = 0 \<or> 0 < s) \<and>
           hh' = hh\<lparr>written := item\<rparr> \<and>
           bs' = map (stored_index (sum_fn hh item) s) [0..<k] @ drop k bs)"
proof (cases ho)
  case None
  then show ?thesis by (simp add: digest_bits_def)
next
  case (Some hh)
  show ?thesis
  proof (cases "k \<le> length bs")
    case True
    from stored_index_map [OF True, of "sum_fn hh item" s]
    have "bits_loop (unat (BigEndian_Uint32 (take 4 (drop 4 (sum_fn hh item)))))
            (unat (BigEndian_Uint32 (take 4 (sum_fn hh item)))) s 0 (take k bs)
          = map (stored_index (sum_fn hh item) s) [0..<k]"
      by (simp add: digest_a_def digest_b_def)
    with True Some show ?thesis
      by (auto simp: digest_bits_def hash_Sum_def hash_Write_def hash_Reset_def Let_def)
  next
    case False
    with Some show ?thesis
      by (auto simp: digest_bits_def hash_Sum_def hash_Write_def hash_Reset_def Let_def)
  qed
qed

lemma BitSet_Test_Set_same: "BitSet_Test (BitSet_Set v i) i"
  by (simp add: BitSet_Test_def BitSet_Set_def nth_append)

lemma BitSet_Test_Set_mono: "BitSet_Test v j \<Longrightarrow> BitSet_Test (BitSet_Set v i) j"
  by (auto simp: BitSet_Test_def BitSet_Set_def nth_append nth_list_update)

lemma Set_loop_length:
  "Set_loop parts vs = Inr parts' \<Longrightarrow> length parts' = length parts \<and> length vs \<le> length parts"
proof (induction parts vs arbitrary: parts' rule: Set_loop.induct)
  case (1 parts)
  then show ?case by simp
next
  case (2 v vs)
  then show ?case by simp
next
  case (3 x parts v vs)
  then show ?case by (auto split: sum.splits)
qed

lemma Set_loop_total:
  "length vs \<le> length parts \<Longrightarrow> \<exists>parts'. Set_loop parts vs = Inr parts'"
proof (induction parts vs rule: Set_loop.induct)
  case (3 x parts v vs)
  then show ?case by (auto split: sum.splits)
qed simp_all

lemma Set_loop_Test:
  "Set_loop parts vs = Inr parts' \<Longrightarrow> i < length vs \<Longrightarrow> BitSet_Test (parts' ! i) (vs ! i)"
proof (induction parts vs arbitrary: parts' i rule: Set_loop.induct)
  case (3 x parts v vs)
  then show ?case
    by (cases i) (auto split: sum.splits simp: BitSet_Test_Set_same)
qed simp_all

lemma Set_loop_mono:
  "Set_loop parts vs = Inr parts' \<Longrightarrow> i < length parts \<Longrightarrow> BitSet_Test (parts ! i) j \<Longrightarrow>
   BitSet_Test (parts' ! i) j"
proof (induction parts vs arbitrary: parts' i rule: Set_loop.induct)
  case (3 x parts v vs)
  then show ?case
    by (cases i) (auto split: sum.splits simp: BitSet_Test_Set_mono)
qed simp_all

lemma Set_loop_nth:
  "Set_loop parts vs = Inr parts' \<Longrightarrow> i < length vs \<Longrightarrow> parts' ! i = BitSet_Set (parts ! i) (vs ! i)"
proof (induction parts vs arbitrary: parts' i rule: Set_loop.induct)
  case (3 x parts v vs)
  then show ?case
    by (cases i) (auto split: sum.splits)
qed simp_all

lemma Set_loop_rest:
  "Set_loop parts vs = Inr parts' \<Longrightarrow> length vs \<le> i \<Longrightarrow> parts' ! i = parts ! i"
proof (induction parts vs arbitrary: parts' i rule: Set_loop.induct)
  case (3 x parts v vs)
  then show ?case
    by (cases i) (auto split: sum.splits)
qed simp_all

lemma list_all_upt_Suc:
  "list_all P [0..<Suc n] = (P 0 \<and> list_all (\<lambda>i. P (Suc i)) [0..<n])"
proof -
  have "[0..<Suc n] = 0 # map Suc [0..<n]"
    by (subst upt_rec) (simp add: map_Suc_upt)
  then show ?thesis
    by (simp only: list.pred_inject list.pred_map comp_def)
qed

lemma Check_loop_eq:
  "length vs \<le> length parts \<Longrightarrow>
   Check_loop parts vs = Inr (list_all (\<lambda>i. BitSet_Test (parts ! i) (vs ! i)) [0..<length vs])"
proof (induction parts vs rule: Check_loop.induct)
  case (1 parts)
  then show ?case by simp
next
  case (2 v vs)
  then show ?case by simp
next
  case (3 x parts v vs)
  have "list_all (\<lambda>i. BitSet_Test ((x # parts) ! i) ((v # vs) ! i)) [0..<length (v # vs)]
         = (BitSet_Test x v \<and> list_all (\<lambda>i. BitSet_Test (parts ! i) (vs ! i)) [0..<length vs])"
    using list_all_upt_Suc [of "\<lambda>i. BitSet_Test ((x # parts) ! i) ((v # vs) ! i)" "length vs"]
    by simp
  with 3 show ?case by auto
qed

lemma Check_loop_short:
  "length parts < length vs \<Longrightarrow> Check_loop parts vs \<noteq> Inr True"
proof (induction parts vs rule: Check_loop.induct)
  case (3 x parts v vs)
  then show ?case by auto
qed simp_all

section \<open>Add and Check of the partitioned filter\<close>

lemma Filter_bits_Inr:
  "Filter_bits f item = Inr f1 \<longleftrightarrow>
     (\<exists>hh. p_h (f_params f) = Some hh \<and> 8 \<le> length (sum_fn hh item) \<and>
           f_k f \<le> length (f_bs f) \<and> (f_k f = 0 \<or> 0 < f_s f) \<and>
           f1 = f\<lparr>f_params := (f_params f)\<lparr>p_h := Some (hh\<lparr>written := item\<rparr>)\<rparr>,
                  f_bs := map (stored_index (sum_fn hh item) (f_s f)) [0..<f_k f]
                          @ drop (f_k f) (f_bs f)\<rparr>)"
proof -
  have "Filter_bits f item = Inr f1 \<longleftrightarrow>
          (\<exists>hh' bs'. digest_bits (p_h (f_params f)) (f_k f) (f_s f) (f_bs f) item = Inr (hh', bs') \<and>
                     f1 = f\<lparr>f_params := (f_params f)\<lparr>p_h := Some hh'\<rparr>, f_bs := bs'\<rparr>)"
    by (auto simp: Filter_bits_def split: sum.splits)
  then show ?thesis
    by (auto simp: digest_bits_Inr)
qed



lemma Filter_Add_Inr:
  "Filter_Add f item = Inr f2 \<longleftrightarrow>
     (\<exists>hh parts. p_h (f_params f) = Some hh \<and> 8 \<le> length (sum_fn hh item) \<and>
           f_k f \<le> length (f_bs f) \<and> (f_k f = 0 \<or> 0 < f_s f) \<and>
           Set_loop (f_b f) (map (stored_index (sum_fn hh item) (f_s f)) [0..<f_k f]) = Inr parts \<and>
           f2 = f\<lparr>f_params := (f_params f)\<lparr>p_h := Some (hh\<lparr>written := item\<rparr>)\<rparr>,
                  f_bs := map (stored_index (sum_fn hh item) (f_s f)) [0..<f_k f]
                          @ drop (f_k f) (f_bs f),
                  f_b := parts, f_c := (f_c f + 1) mod 2 ^ 64\<rparr>)"
  (is "?L \<longleftrightarrow> ?R")
proof
  assume ?L
  then obtain f1 parts where
    b: "Filter_bits f item = Inr f1" and
    s: "Set_loop (f_b f1) (take (f_k f1) (f_bs f1)) = Inr parts" and
    e: "f2 = f1\<lparr>f_b := parts, f_c := (f_c f1 + 1) mod 2 ^ 64\<rparr>"
    by (auto simp: Filter_Add_def split: sum.splits)
  from b obtain hh where
    h: "p_h (f_params f) = Some hh" "8 \<le> length (sum_fn hh item)"
       "f_k f \<le> length (f_bs f)" "f_k f = 0 \<or> 0 < f_s f" and
    f1: "f1 = f\<lparr>f_params := (f_params f)\<lparr>p_h := Some (hh\<lparr>written := item\<rparr>)\<rparr>,
                  f_bs := map (stored_index (sum_fn hh item) (f_s f)) [0..<f_k f]
                          @ drop (f_k f) (f_bs f)\<rparr>"
    unfolding Filter_bits_Inr by blast
  from s have "Set_loop (f_b f) (map (stored_index (sum_fn hh item) (f_s f)) [0..<f_k f]) = Inr parts"
    by (simp add: f1)
  moreover from e have "f2 = f\<lparr>f_params := (f_params f)\<lparr>p_h := Some (hh\<lparr>written := item\<rparr>)\<rparr>,
                  f_bs := map (stored_index (sum_fn hh item) (f_s f)) [0..<f_k f]
                          @ drop (f_k f) (f_bs f),
                  f_b := parts, f_c := (f_c f + 1) mod 2 ^ 64\<rparr>"
    by (simp add: f1)
  ultimately show ?R using h by blast
next
  assume ?R
  then obtain hh parts where
    h: "p_h (f_params f) = Some hh" "8 \<le> length (sum_fn hh item)"
       "f_k f \<le> length (f_bs f)" "f_k f = 0 \<or> 0 < f_s f" and
    S: "Set_loop (f_b f) (map (stored_index (sum_fn hh item) (f_s f)) [0..<f_k f]) = Inr parts" and
    f2: "f2 = f\<lparr>f_params := (f_params f)\<lparr>p_h := Some (hh\<lparr>written := item\<rparr>)\<rparr>,
                  f_bs := map (stored_index (sum_fn hh item) (f_s f)) [0..<f_k f]
                          @ drop (f_k f) (f_bs f),
                  f_b := parts, f_c := (f_c f + 1) mod 2 ^ 64\<rparr>"
    by blast
  define f1 where "f1 = f\<lparr>f_params := (f_params f)\<lparr>p_h := Some (hh\<lparr>written := item\<rparr>)\<rparr>,
                  f_bs := map (stored_index (sum_fn hh item) (f_s f)) [0..<f_k f]
                          @ drop (f_k f) (f_bs f)\<rparr>"
  have b: "Filter_bits f item = Inr f1"
    unfolding Filter_bits_Inr f1_def using h by blast
  have "Set_loop (f_b f1) (take (f_k f1) (f_bs f1)) = Inr parts"
    using S by (simp add: f1_def)
  moreover have "f2 = f1\<lparr>f_b := parts, f_c := (f_c f1 + 1) mod 2 ^ 64\<rparr>"
    by (simp add: f1_def f2)
  ultimately show ?L
    by (simp add: Filter_Add_def b)
qed


lemma Filter_Check_Inr:
  "Filter_Check f item = Inr (r, f1) \<longleftrightarrow>
     (\<exists>hh. p_h (f_params f) = Some hh \<and> 8 \<le> length (sum_fn hh item) \<and>
           f_k f \<le> length (f_bs f) \<and> (f_k f = 0 \<or> 0 < f_s f) \<and>
           Check_loop (f_b f) (map (stored_index (sum_fn hh item) (f_s f)) [0..<f_k f]) = Inr r \<and>
           f1 = f\<lparr>f_params := (f_params f)\<lparr>p_h := Some (hh\<lparr>written := item\<rparr>)\<rparr>,
                  f_bs := map (stored_index (sum_fn hh item) (f_s f)) [0..<f_k f]
                          @ drop (f_k f) (f_bs f)\<rparr>)"
  (is "?L \<longleftrightarrow> ?R")
proof
  assume ?L
  then have b: "Filter_bits f item = Inr f1" and
    c: "Check_loop (f_b f1) (take (f_k f1) (f_bs f1)) = Inr r"
    by (auto simp: Filter_Check_def split: sum.splits)
  from b obtain hh where
    h: "p_h (f_params f) = Some hh" "8 \<le> length (sum_fn hh item)"
       "f_k f \<le> length (f_bs f)" "f_k f = 0 \<or> 0 < f_s f" and
    f1: "f1 = f\<lparr>f_params := (f_params f)\<lparr>p_h := Some (hh\<lparr>written := item\<rparr>)\<rparr>,
                  f_bs := map (stored_index (sum_fn hh item) (f_s f)) [0..<f_k f]
                          @ drop (f_k f) (f_bs f)\<rparr>"
    unfolding Filter_bits_Inr by blast
  from c have "Check_loop (f_b f) (map (stored_index (sum_fn hh item) (f_s f)) [0..<f_k f]) = Inr r"
    by (simp add: f1)
  with h f1 show ?R by blast
next
  assume ?R
  then obtain hh where
    h: "p_h (f_params f) = Some hh" "8 \<le> length (sum_fn hh item)"
       "f_k f \<le> length (f_bs f)" "f_k f = 0 \<or> 0 < f_s f" and
    C: "Check_loop (f_b f) (map (stored_index (sum_fn hh item) (f_s f)) [0..<f_k f]) = Inr r" and
    f1: "f1 = f\<lparr>f_params := (f_params f)\<lparr>p_h := Some (hh\<lparr>written := item\<rparr>)\<rparr>,
                  f_bs := map (stored_index (sum_fn hh item) (f_s f)) [0..<f_k f]
                          @ drop (f_k f) (f_bs f)\<rparr>"
    by blast
  have b: "Filter_bits f item = Inr f1"
    unfolding Filter_bits_Inr using h f1 by blast
  have "Check_loop (f_b f1) (take (f_k f1) (f_bs f1)) = Inr r"
    using C by (simp add: f1)
  then show ?L
    by (simp add: Filter_Check_def b)
qed

lemma list_all_upt: "list_all P [0..<n] \<longleftrightarrow> (\<forall>i<n. P i)"
  by (auto simp: list_all_iff)

lemma Filter_holds_iff:
  "Filter_holds f item \<longleftrightarrow>
     (\<exists>hh. p_h (f_params f) = Some hh \<and> 8 \<le> length (sum_fn hh item) \<and>
           f_k f \<le> length (f_bs f) \<and> f_k f \<le> length (f_b f) \<and> (f_k f = 0 \<or> 0 < f_s f) \<and>
           (\<forall>i<f_k f. BitSet_Test (f_b f ! i) (stored_index (sum_fn hh item) (f_s f) i)))"
  by (cases "p_h (f_params f)") (simp_all add: Filter_holds_def list_all_upt)

lemma Filter_Add_holds:
  assumes "Filter_Add f item = Inr f2"
  shows "Filter_holds f2 item"
proof -
  from assms obtain hh parts where
    h: "p_h (f_params f) = Some hh" "8 \<le> length (sum_fn hh item)"
       "f_k f \<le> length (f_bs f)" "f_k f = 0 \<or> 0 < f_s f" and
    S: "Set_loop (f_b f) (map (stored_index (sum_fn hh item) (f_s f)) [0..<f_k f]) = Inr parts" and
    f2: "f2 = f\<lparr>f_params := (f_params f)\<lparr>p_h := Some (hh\<lparr>written := item\<rparr>)\<rparr>,
                  f_bs := map (stored_index (sum_fn hh item) (f_s f)) [0..<f_k f]
                          @ drop (f_k f) (f_bs f),
                  f_b := parts, f_c := (f_c f + 1) mod 2 ^ 64\<rparr>"
    unfolding Filter_Add_Inr by blast
  from Set_loop_length [OF S] have len: "length parts = length (f_b f)" "f_k f \<le> length (f_b f)"
    by simp_all
  have "BitSet_Test (parts ! i) (stored_index (sum_fn hh item) (f_s f) i)" if "i < f_k f" for i
    using Set_loop_Test [OF S, of i] that by simp
  with h len show ?thesis
    unfolding Filter_holds_iff f2 by simp
qed

lemma Filter_Add_keeps:
  assumes "Filter_holds f x" "Filter_Add f item = Inr f2"
  shows "Filter_holds f2 x"
proof -
  from assms(2) obtain hh parts where
    h: "p_h (f_params f) = Some hh" "8 \<le> length (sum_fn hh item)"
       "f_k f \<le> length (f_bs f)" "f_k f = 0 \<or> 0 < f_s f" and
    S: "Set_loop (f_b f) (map (stored_index (sum_fn hh item) (f_s f)) [0..<f_k f]) = Inr parts" and
    f2: "f2 = f\<lparr>f_params := (f_params f)\<lparr>p_h := Some (hh\<lparr>written := item\<rparr>)\<rparr>,
                  f_bs := map (stored_index (sum_fn hh item) (f_s f)) [0..<f_k f]
                          @ drop (f_k f) (f_bs f),
                  f_b := parts, f_c := (f_c f + 1) mod 2 ^ 64\<rparr>"
    unfolding Filter_Add_Inr by blast
  from Set_loop_length [OF S] have len: "length parts = length (f_b f)" "f_k f \<le> length (f_b f)"
    by simp_all
  from assms(1) h(1) have
    x: "8 \<le> length (sum_fn hh x)"
       "\<forall>i<f_k f. BitSet_Test (f_b f ! i) (stored_index (sum_fn hh x) (f_s f) i)"
    unfolding Filter_holds_iff by auto
  have "BitSet_Test (parts ! i) (stored_index (sum_fn hh x) (f_s f) i)" if "i < f_k f" for i
    using Set_loop_mono [OF S, of i] that len x(2) by simp
  with h len x(1) show ?thesis
    unfolding Filter_holds_iff f2 by simp
qed

lemma Filter_Check_keeps:
  assumes "Filter_holds f x" "Filter_Check f item = Inr (r, f1)"
  shows "Filter_holds f1 x"
proof -
  from assms(2) obtain hh where
    h: "p_h (f_params f) = Some hh" and
    f1: "f1 = f\<lparr>f_params := (f_params f)\<lparr>p_h := Some (hh\<lparr>written := item\<rparr>)\<rparr>,
                  f_bs := map (stored_index (sum_fn hh item) (f_s f)) [0..<f_k f]
                          @ drop (f_k f) (f_bs f)\<rparr>"
    unfolding Filter_Check_Inr by blast
  from assms(1) h show ?thesis
    unfolding Filter_holds_iff f1 by simp
qed

lemma Filter_holds_Check:
  assumes "Filter_holds f x"
  shows "\<exists>f1. Filter_Check f x = Inr (True, f1)"
proof -
  from assms obtain hh where
    h: "p_h (f_params f) = Some hh" "8 \<le> length (sum_fn hh x)"
       "f_k f \<le> length (f_bs f)" "f_k f \<le> length (f_b f)" "f_k f = 0 \<or> 0 < f_s f"
       "\<forall>i<f_k f. BitSet_Test (f_b f ! i) (stored_index (sum_fn hh x) (f_s f) i)"
    unfolding Filter_holds_iff by blast
  have "Check_loop (f_b f) (map (stored_index (sum_fn hh x) (f_s f)) [0..<f_k f]) = Inr True"
    using Check_loop_eq [of "map (stored_index (sum_fn hh x) (f_s f)) [0..<f_k f]" "f_b f"] h(4,6)
    by (simp add: list_all_upt)
  with h show ?thesis
    unfolding Filter_Check_Inr by blast
qed

lemma Filter_run_holds:
  "Filter_holds f x \<Longrightarrow> FReset \<notin> set ops \<Longrightarrow> Filter_run f ops = Inr f' \<Longrightarrow> Filter_holds f' x"
proof (induction ops arbitrary: f)
  case Nil
  then show ?case by simp
next
  case (Cons a ops)
  from Cons.prems(3) obtain g where
    g: "Filter_step f a = Inr g" "Filter_run g ops = Inr f'"
    by (auto split: sum.splits)
  have "Filter_holds g x"
  proof (cases a)
    case (FAdd item)
    with g(1) Cons.prems(1) show ?thesis by (auto intro: Filter_Add_keeps)
  next
    case (FCheck item)
    with g(1) Cons.prems(1) show ?thesis
      by (auto split: sum.splits intro: Filter_Check_keeps)
  next
    case FReset
    with Cons.prems(2) show ?thesis by simp
  qed
  with Cons.IH [of g] Cons.prems(2) g(2) show ?case by simp
qed

section \<open>Options and derived parameters\<close>

lemma apply_Options_append:
  "apply_Options ch (xs @ ys) ps = apply_Options ch ys (apply_Options ch xs ps)"
  by (simp add: apply_Options_def)

lemma withDefault_append: "withDefault (opt @ xs) = withDefault opt @ xs"
  by (simp add: withDefault_def)

lemma apply_Options_snoc_e:
  "apply_Options ch (withDefault (opt @ [WithErrorRate e])) ps
     = (apply_Options ch (withDefault opt) ps)\<lparr>p_e := (if e \<le> 0 then 1 / 1000 else e)\<rparr>"
  by (simp add: withDefault_append apply_Options_append) (simp add: apply_Options_def)

lemma apply_Option_keeps:
  "p_h ps \<noteq> None \<and> 0 < p_e ps \<and> 0 < p_p ps \<Longrightarrow>
   p_h (apply_Option ch x ps) \<noteq> None \<and> 0 < p_e (apply_Option ch x ps) \<and> 0 < p_p (apply_Option ch x ps)"
  by (cases x) simp_all

lemma apply_Options_keeps:
  "p_h ps \<noteq> None \<and> 0 < p_e ps \<and> 0 < p_p ps \<Longrightarrow>
   p_h (apply_Options ch xs ps) \<noteq> None \<and> 0 < p_e (apply_Options ch xs ps) \<and>
   0 < p_p (apply_Options ch xs ps)"
proof (induction xs arbitrary: ps)
  case Nil
  then show ?case by (simp add: apply_Options_def)
next
  case (Cons x xs)
  from Cons.IH [OF apply_Option_keeps [OF Cons.prems, of ch x]]
  show ?case by (simp add: apply_Options_def)
qed

lemma withDefault_params:
  "p_h (apply_Options ch (withDefault opt) zero_params) \<noteq> None \<and>
   0 < p_e (apply_Options ch (withDefault opt) zero_params) \<and>
   0 < p_p (apply_Options ch (withDefault opt) zero_params)"
proof -
  have "apply_Options ch (withDefault opt) zero_params
          = apply_Options ch opt \<lparr>p_h = Some ch, p_e = 1 / 1000, p_p = 1 / 2\<rparr>"
    by (simp add: withDefault_def apply_Options_def zero_params_def)
  moreover have "p_h (apply_Options ch opt \<lparr>p_h = Some ch, p_e = 1 / 1000, p_p = 1 / 2\<rparr>) \<noteq> None \<and>
    0 < p_e (apply_Options ch opt \<lparr>p_h = Some ch, p_e = 1 / 1000, p_p = 1 / 2\<rparr>) \<and>
    0 < p_p (apply_Options ch opt \<lparr>p_h = Some ch, p_e = 1 / 1000, p_p = 1 / 2\<rparr>)"
    by (rule apply_Options_keeps) simp
  ultimately show ?thesis by simp
qed

lemma bloom_k_pos_imp:
  assumes "0 < e" "0 < bloom_k e"
  shows "e < 1"
proof (rule ccontr)
  assume "\<not> e < 1"
  then have "1 / e \<le> 1" using assms(1) by simp
  moreover have "0 < 1 / e" using assms(1) by simp
  ultimately have "log 2 (1 / e) \<le> 0" by simp
  then have "\<lceil>log 2 (1 / e)\<rceil> \<le> 0" by (simp add: ceiling_le_iff)
  then have "bloom_k e = 0" by (simp add: bloom_k_def)
  with assms(2) show False by simp
qed

lemma bloom_m_pos:
  assumes "0 < n" "0 < p" "p < 1" "0 < e" "e < 1"
  shows "0 < bloom_m n p e"
proof -
  have "ln p < 0" "ln (1 - p) < 0" "ln e < 0"
    using assms by simp_all
  then have "0 < ln p * ln (1 - p)" "0 < \<bar>ln e\<bar>"
    by (simp_all add: mult_neg_neg)
  then have q: "0 < (ln p * ln (1 - p)) / \<bar>ln e\<bar>"
    by (rule divide_pos_pos)
  have "0 < real n" using assms(1) by simp
  then have "0 < real n / ((ln p * ln (1 - p)) / \<bar>ln e\<bar>)"
    using q by (rule divide_pos_pos)
  then have "0 < \<lceil>real n / ((ln p * ln (1 - p)) / \<bar>ln e\<bar>)\<rceil>"
    by (simp add: less_ceiling_iff)
  then show ?thesis by (simp add: bloom_m_def)
qed

lemma bloom_s_pos:
  assumes "0 < m" "0 < k"
  shows "0 < bloom_s m k"
proof -
  have "0 < real m / real k" using assms by simp
  then have "0 < \<lceil>real m / real k\<rceil>" by (simp add: less_ceiling_iff)
  then show ?thesis by (simp add: bloom_s_def)
qed

lemma derived_s_pos:
  assumes "0 < n" "0 < p" "p < 1" "0 < e"
  shows "bloom_k e = 0 \<or> 0 < bloom_s (bloom_m n p e) (bloom_k e)"
proof (cases "bloom_k e = 0")
  case True
  then show ?thesis by simp
next
  case False
  then have k: "0 < bloom_k e" by simp
  from bloom_k_pos_imp [OF assms(4) k] have "e < 1" .
  from bloom_s_pos [OF bloom_m_pos [OF assms(1-3) assms(4) this] k] show ?thesis by simp
qed

lemma bloom_New_Inr:
  "0 < n \<Longrightarrow>
   bloom_New ch n opt =
     Inr \<lparr>f_params = apply_Options ch (withDefault opt) zero_params,
          f_m = bloom_m n (p_p (apply_Options ch (withDefault opt) zero_params))
                          (p_e (apply_Options ch (withDefault opt) zero_params)),
          f_k = bloom_k (p_e (apply_Options ch (withDefault opt) zero_params)),
          f_n = n, f_c = 0,
          f_s = bloom_s (bloom_m n (p_p (apply_Options ch (withDefault opt) zero_params))
                                   (p_e (apply_Options ch (withDefault opt) zero_params)))
                        (bloom_k (p_e (apply_Options ch (withDefault opt) zero_params))),
          f_b = makePartitions (bloom_k (p_e (apply_Options ch (withDefault opt) zero_params)))
                  (bloom_s (bloom_m n (p_p (apply_Options ch (withDefault opt) zero_params))
                                   (p_e (apply_Options ch (withDefault opt) zero_params)))
                        (bloom_k (p_e (apply_Options ch (withDefault opt) zero_params)))),
          f_bs = replicate (bloom_k (p_e (apply_Options ch (withDefault opt) zero_params))) 0\<rparr>"
  by (simp add: bloom_New_def Let_def)

lemma bloom_New_zero: "bloom_New ch 0 opt = Inl PanicNZero"
  by (simp add: bloom_New_def)

lemma bloom_New_fields:
  assumes "bloom_New ch n opt = Inr f"
  shows "0 < n" "f_n f = n" "f_c f = 0"
    "f_params f = apply_Options ch (withDefault opt) zero_params"
    "f_k f = bloom_k (p_e (f_params f))"
    "f_m f = bloom_m n (p_p (f_params f)) (p_e (f_params f))"
    "f_s f = bloom_s (f_m f) (f_k f)"
    "f_b f = makePartitions (f_k f) (f_s f)"
    "f_bs f = replicate (f_k f) 0"
proof -
  from assms show n: "0 < n" by (cases "n = 0") (simp_all add: bloom_New_def)
  from assms bloom_New_Inr [OF n, of ch opt]
  have f: "f = \<lparr>f_params = apply_Options ch (withDefault opt) zero_params,
          f_m = bloom_m n (p_p (apply_Options ch (withDefault opt) zero_params))
                          (p_e (apply_Options ch (withDefault opt) zero_params)),
          f_k = bloom_k (p_e (apply_Options ch (withDefault opt) zero_params)),
          f_n = n, f_c = 0,
          f_s = bloom_s (bloom_m n (p_p (apply_Options ch (withDefault opt) zero_params))
                                   (p_e (apply_Options ch (withDefault opt) zero_params)))
                        (bloom_k (p_e (apply_Options ch (withDefault opt) zero_params))),
          f_b = makePartitions (bloom_k (p_e (apply_Options ch (withDefault opt) zero_params)))
                  (bloom_s (bloom_m n (p_p (apply_Options ch (withDefault opt) zero_params))
                                   (p_e (apply_Options ch (withDefault opt) zero_params)))
                        (bloom_k (p_e (apply_Options ch (withDefault opt) zero_params)))),
          f_bs = replicate (bloom_k (p_e (apply_Options ch (withDefault opt) zero_params))) 0\<rparr>"
    by simp
  show "f_n f = n" "f_c f = 0"
    "f_params f = apply_Options ch (withDefault opt) zero_params"
    "f_k f = bloom_k (p_e (f_params f))"
    "f_m f = bloom_m n (p_p (f_params f)) (p_e (f_params f))"
    "f_s f = bloom_s (f_m f) (f_k f)"
    "f_b f = makePartitions (f_k f) (f_s f)"
    "f_bs f = replicate (f_k f) 0"
    by (simp_all add: f)
qed

section \<open>The invariant of the scalable filter\<close>

lemma makePartitions_length: "length (makePartitions k s) = k"
  by (simp add: makePartitions_def)

lemma sub_ok_cong:
  "sf_n s' = sf_n s \<Longrightarrow> sf_params s' = sf_params s \<Longrightarrow> sub_ok s' f = sub_ok s f"
  by (simp add: sub_ok_def)

lemma list_all_update:
  "list_all P xs \<Longrightarrow> P y \<Longrightarrow> list_all P (xs[i := y])"
  by (induction xs arbitrary: i) (auto split: nat.splits)

lemma new_sub_params:
  assumes "bloom_New ch n (opt @ [WithErrorRate e]) = Inr bf"
  shows "f_params bf = (apply_Options ch (withDefault opt) zero_params)
                         \<lparr>p_e := (if e \<le> 0 then 1 / 1000 else e)\<rparr>"
  using bloom_New_fields(4) [OF assms] by (simp add: apply_Options_snoc_e)

lemma new_sub_ok:
  assumes P: "sf_params sbf = apply_Options ch (withDefault (sf_opt sbf)) zero_params"
    and N: "bloom_New ch (sf_n sbf) (sf_opt sbf @ [WithErrorRate e]) = Inr bf"
  shows "sub_ok sbf bf"
proof -
  note F = bloom_New_fields [OF N]
  have ps: "f_params bf = (sf_params sbf)\<lparr>p_e := (if e \<le> 0 then 1 / 1000 else e)\<rparr>"
    using new_sub_params [OF N] P by simp
  have D: "p_h (sf_params sbf) \<noteq> None" "0 < p_p (sf_params sbf)"
    using withDefault_params [of ch "sf_opt sbf"] P by simp_all
  have e: "0 < p_e (f_params bf)" by (simp add: ps)
  have pp: "p_p (f_params bf) = p_p (sf_params sbf)" by (simp add: ps)
  have "f_k bf = 0 \<or> 0 < f_s bf" if "p_p (sf_params sbf) < 1"
    using derived_s_pos [OF F(1) _ _ e, of "p_p (sf_params sbf)"] D(2) that
    by (simp add: F(5,6,7) pp)
  then have "f_k bf = 0 \<or> 0 < f_s bf \<or> 1 \<le> p_p (sf_params sbf)"
    by linarith
  moreover have "length (f_b bf) = f_k bf" "length (f_bs bf) = f_k bf"
    by (simp_all add: F(8,9) makePartitions_length)
  moreover have "p_h (f_params bf) \<noteq> None"
    "map_option sum_fn (p_h (f_params bf)) = map_option sum_fn (p_h (sf_params sbf))"
    using D(1) by (simp_all add: ps)
  ultimately show ?thesis
    unfolding sub_ok_def using F(2) by blast
qed

lemma addBloomFilter_total:
  assumes "0 < sf_n sbf"
  shows "\<exists>bf. bloom_New ch (sf_n sbf)
                 (sf_opt sbf @ [WithErrorRate (p_e (sf_params sbf) * sf_r sbf ^ length (sf_bfs sbf))])
               = Inr bf \<and>
              addBloomFilter ch sbf = Inr (sbf\<lparr>sf_bfs := sf_bfs sbf @ [bf]\<rparr>)"
  using bloom_New_Inr [OF assms, of ch]
  by (simp add: addBloomFilter_def Let_def)

lemma addBloomFilter_Inr:
  assumes "addBloomFilter ch sbf = Inr sbf'"
  shows "\<exists>bf. bloom_New ch (sf_n sbf)
                 (sf_opt sbf @ [WithErrorRate (p_e (sf_params sbf) * sf_r sbf ^ length (sf_bfs sbf))])
               = Inr bf \<and> sbf' = sbf\<lparr>sf_bfs := sf_bfs sbf @ [bf]\<rparr>"
  using assms by (auto simp: addBloomFilter_def Let_def split: sum.splits)

lemma addBloomFilter_inv:
  assumes "0 < sf_n sbf" "0 < sf_r sbf"
    "sf_params sbf = apply_Options ch (withDefault (sf_opt sbf)) zero_params"
    "list_all (sub_ok sbf) (sf_bfs sbf)"
    "addBloomFilter ch sbf = Inr sbf'"
  shows "Scalable_inv ch sbf'"
proof -
  from addBloomFilter_Inr [OF assms(5)] obtain bf where
    N: "bloom_New ch (sf_n sbf)
          (sf_opt sbf @ [WithErrorRate (p_e (sf_params sbf) * sf_r sbf ^ length (sf_bfs sbf))]) = Inr bf"
    and s': "sbf' = sbf\<lparr>sf_bfs := sf_bfs sbf @ [bf]\<rparr>"
    by blast
  have ok: "sub_ok sbf bf" by (rule new_sub_ok [OF assms(3) N])
  have c: "sub_ok sbf' = sub_ok sbf"
    by (intro ext sub_ok_cong) (simp_all add: s')
  show ?thesis
    unfolding Scalable_inv_def c using assms(1-4) ok by (simp add: s')
qed

lemma Filter_Add_sub_ok:
  assumes "sub_ok sbf f" "Filter_Add f item = Inr f2"
  shows "sub_ok sbf f2"
proof -
  from assms(2) obtain hh parts where
    h: "p_h (f_params f) = Some hh" and
    S: "Set_loop (f_b f) (map (stored_index (sum_fn hh item) (f_s f)) [0..<f_k f]) = Inr parts" and
    f2: "f2 = f\<lparr>f_params := (f_params f)\<lparr>p_h := Some (hh\<lparr>written := item\<rparr>)\<rparr>,
                  f_bs := map (stored_index (sum_fn hh item) (f_s f)) [0..<f_k f]
                          @ drop (f_k f) (f_bs f),
                  f_b := parts, f_c := (f_c f + 1) mod 2 ^ 64\<rparr>"
    unfolding Filter_Add_Inr by blast
  from Set_loop_length [OF S] have "length parts = length (f_b f)" by simp
  with assms(1) h show ?thesis
    unfolding sub_ok_def f2 by simp
qed

lemma Filter_Check_sub_ok:
  assumes "sub_ok sbf f" "Filter_Check f item = Inr (r, f1)"
  shows "sub_ok sbf f1"
proof -
  from assms(2) obtain hh where
    h: "p_h (f_params f) = Some hh" and
    f1: "f1 = f\<lparr>f_params := (f_params f)\<lparr>p_h := Some (hh\<lparr>written := item\<rparr>)\<rparr>,
                  f_bs := map (stored_index (sum_fn hh item) (f_s f)) [0..<f_k f]
                          @ drop (f_k f) (f_bs f)\<rparr>"
    unfolding Filter_Check_Inr by blast
  from assms(1) h show ?thesis
    unfolding sub_ok_def f1 by simp
qed

lemma add_to_Inr:
  assumes "add_to sbf i item = Inr sbf'"
  shows "i < length (sf_bfs sbf) \<and>
         (\<exists>bf. Filter_Add (sf_bfs sbf ! i) item = Inr bf \<and>
               sbf' = sbf\<lparr>sf_bfs := (sf_bfs sbf)[i := bf], sf_c := (sf_c sbf + 1) mod 2 ^ 64\<rparr>)"
  using assms by (auto simp: add_to_def split: if_splits sum.splits)

lemma add_to_inv:
  assumes "Scalable_inv ch sbf" "add_to sbf i item = Inr sbf'"
  shows "Scalable_inv ch sbf'"
proof -
  from add_to_Inr [OF assms(2)] obtain bf where
    i: "i < length (sf_bfs sbf)" and
    A: "Filter_Add (sf_bfs sbf ! i) item = Inr bf" and
    s': "sbf' = sbf\<lparr>sf_bfs := (sf_bfs sbf)[i := bf], sf_c := (sf_c sbf + 1) mod 2 ^ 64\<rparr>"
    by blast
  from assms(1) have all: "list_all (sub_ok sbf) (sf_bfs sbf)"
    by (simp add: Scalable_inv_def)
  with i have "sub_ok sbf (sf_bfs sbf ! i)" by (simp add: list_all_length)
  from Filter_Add_sub_ok [OF this A] have "sub_ok sbf bf" .
  with all have "list_all (sub_ok sbf) ((sf_bfs sbf)[i := bf])" by (rule list_all_update)
  moreover have c: "sub_ok sbf' = sub_ok sbf"
    by (intro ext sub_ok_cong) (simp_all add: s')
  ultimately show ?thesis
    using assms(1) unfolding Scalable_inv_def c by (simp add: s')
qed

lemma Scalable_inv_fields:
  assumes "Scalable_inv ch sbf"
  shows "sf_bfs sbf \<noteq> []" "0 < sf_n sbf" "0 < sf_r sbf"
    "sf_params sbf = apply_Options ch (withDefault (sf_opt sbf)) zero_params"
    "list_all (sub_ok sbf) (sf_bfs sbf)"
  using assms by (simp_all add: Scalable_inv_def)

lemma ScalableFilter_Add_inv:
  assumes "Scalable_inv ch sbf" "ScalableFilter_Add ch sbf item = Inr sbf'"
  shows "Scalable_inv ch sbf'"
proof -
  note I = Scalable_inv_fields [OF assms(1)]
  show ?thesis
  proof (cases "Filter_EstimatedFillRatio (sf_bfs sbf ! (length (sf_bfs sbf) - 1))
                  > p_p (sf_params sbf)")
    case True
    with assms(2) I(1) obtain s1 where
      a: "addBloomFilter ch sbf = Inr s1" and
      b: "add_to s1 (length (sf_bfs sbf) - 1 + 1) item = Inr sbf'"
      by (auto simp: ScalableFilter_Add_def Let_def split: sum.splits)
    from addBloomFilter_inv [OF I(2,3,4,5) a] have "Scalable_inv ch s1" .
    from add_to_inv [OF this b] show ?thesis .
  next
    case False
    with assms(2) I(1) have "add_to sbf (length (sf_bfs sbf) - 1) item = Inr sbf'"
      by (auto simp: ScalableFilter_Add_def Let_def)
    from add_to_inv [OF assms(1) this] show ?thesis .
  qed
qed

lemma Scalable_Check_loop_inv:
  "Scalable_inv ch sbf \<Longrightarrow> Scalable_Check_loop sbf j item = Inr (r, sbf') \<Longrightarrow> Scalable_inv ch sbf'"
proof (induction j arbitrary: sbf)
  case 0
  then show ?case by simp
next
  case (Suc j)
  from Suc.prems(2) have j: "j < length (sf_bfs sbf)"
    by (cases "length (sf_bfs sbf) \<le> j") simp_all
  from Suc.prems(2) j obtain r1 bf where
    C: "Filter_Check (sf_bfs sbf ! j) item = Inr (r1, bf)"
    by (auto split: sum.splits)
  define s1 where "s1 = sbf\<lparr>sf_bfs := (sf_bfs sbf)[j := bf]\<rparr>"
  from Suc.prems(1) have all: "list_all (sub_ok sbf) (sf_bfs sbf)"
    by (simp add: Scalable_inv_def)
  with j have "sub_ok sbf (sf_bfs sbf ! j)" by (simp add: list_all_length)
  from Filter_Check_sub_ok [OF this C] have "sub_ok sbf bf" .
  with all have "list_all (sub_ok sbf) ((sf_bfs sbf)[j := bf])" by (rule list_all_update)
  moreover have c: "sub_ok s1 = sub_ok sbf"
    by (intro ext sub_ok_cong) (simp_all add: s1_def)
  ultimately have inv1: "Scalable_inv ch s1"
    using Suc.prems(1) unfolding Scalable_inv_def c by (simp add: s1_def)
  show ?case
  proof (cases r1)
    case True
    with Suc.prems(2) j C have "sbf' = s1" by (simp add: s1_def)
    with inv1 show ?thesis by simp
  next
    case False
    with Suc.prems(2) j C have "Scalable_Check_loop s1 j item = Inr (r, sbf')"
      by (simp add: s1_def)
    from Suc.IH [OF inv1 this] show ?thesis .
  qed
qed

lemma ScalableFilter_Reset_inv:
  assumes "Scalable_inv ch sbf" "ScalableFilter_Reset ch sbf = Inr sbf'"
  shows "Scalable_inv ch sbf'"
proof -
  note I = Scalable_inv_fields [OF assms(1)]
  from assms(2) have a: "addBloomFilter ch (sbf\<lparr>sf_bfs := [], sf_c := 0\<rparr>) = Inr sbf'"
    by (simp add: ScalableFilter_Reset_def)
  show ?thesis
    by (rule addBloomFilter_inv [OF _ _ _ _ a]) (simp_all add: I)
qed

lemma NewScalable_inv:
  assumes "NewScalable ch n opt = Inr s0"
  shows "Scalable_inv ch s0"
proof -
  from assms have n: "0 < n" by (cases "n = 0") (simp_all add: NewScalable_def)
  with assms have a: "addBloomFilter ch
             \<lparr>sf_params = apply_Options ch (withDefault opt) zero_params,
              sf_opt = opt, sf_n = n, sf_c = 0, sf_r = float32_0_9, sf_bfs = []\<rparr> = Inr s0"
    by (simp add: NewScalable_def)
  show ?thesis
    by (rule addBloomFilter_inv [OF _ _ _ _ a]) (simp_all add: n float32_0_9_def)
qed

lemma Scalable_step_inv:
  assumes "Scalable_inv ch sbf" "Scalable_step ch sbf x = Inr sbf'"
  shows "Scalable_inv ch sbf'"
proof (cases x)
  case (SAdd item)
  with assms show ?thesis by (auto intro: ScalableFilter_Add_inv)
next
  case (SCheck item)
  with assms(2) obtain r where "ScalableFilter_Check sbf item = Inr (r, sbf')"
    by (auto split: sum.splits)
  then show ?thesis
    using Scalable_Check_loop_inv [OF assms(1)] by (simp add: ScalableFilter_Check_def)
next
  case SReset
  with assms show ?thesis by (auto intro: ScalableFilter_Reset_inv)
next
  case SFillRatio
  with assms show ?thesis by (auto split: sum.splits)
next
  case SEstimatedFillRatio
  with assms show ?thesis by (auto split: sum.splits)
next
  case SCount
  with assms show ?thesis by simp
qed

lemma Scalable_run_inv:
  "Scalable_inv ch sbf \<Longrightarrow> Scalable_run ch sbf ops = Inr sbf' \<Longrightarrow> Scalable_inv ch sbf'"
proof (induction ops arbitrary: sbf)
  case Nil
  then show ?case by simp
next
  case (Cons x ops)
  from Cons.prems(2) obtain s1 where
    s: "Scalable_step ch sbf x = Inr s1" "Scalable_run ch s1 ops = Inr sbf'"
    by (auto split: sum.splits)
  from Cons.IH [OF Scalable_step_inv [OF Cons.prems(1) s(1)] s(2)] show ?case .
qed

section \<open>Items held by a scalable filter\<close>

lemma Scalable_holds_iff:
  "Scalable_holds sbf x \<longleftrightarrow> (\<exists>i<length (sf_bfs sbf). Filter_holds (sf_bfs sbf ! i) x)"
  by (simp add: Scalable_holds_def list_ex_length)

lemma exists_update:
  assumes "\<exists>i<length xs. P (xs ! i)" "P (xs ! j) \<Longrightarrow> P y"
  shows "\<exists>i<length (xs[j := y]). P (xs[j := y] ! i)"
proof -
  from assms(1) obtain i where i: "i < length xs" "P (xs ! i)" by blast
  show ?thesis
  proof (cases "i = j")
    case True
    with i assms(2) have "P (xs[j := y] ! i)" by simp
    with i(1) show ?thesis by auto
  next
    case False
    with i have "P (xs[j := y] ! i)" by simp
    with i(1) show ?thesis by auto
  qed
qed

lemma add_to_holds:
  assumes "add_to sbf i item = Inr sbf'"
  shows "Scalable_holds sbf' item"
proof -
  from add_to_Inr [OF assms] obtain bf where
    i: "i < length (sf_bfs sbf)" and
    A: "Filter_Add (sf_bfs sbf ! i) item = Inr bf" and
    s': "sbf' = sbf\<lparr>sf_bfs := (sf_bfs sbf)[i := bf], sf_c := (sf_c sbf + 1) mod 2 ^ 64\<rparr>"
    by blast
  from Filter_Add_holds [OF A] i show ?thesis
    unfolding Scalable_holds_iff s' by auto
qed

lemma add_to_keeps:
  assumes "Scalable_holds sbf x" "add_to sbf i item = Inr sbf'"
  shows "Scalable_holds sbf' x"
proof -
  from add_to_Inr [OF assms(2)] obtain bf where
    A: "Filter_Add (sf_bfs sbf ! i) item = Inr bf" and
    s': "sbf' = sbf\<lparr>sf_bfs := (sf_bfs sbf)[i := bf], sf_c := (sf_c sbf + 1) mod 2 ^ 64\<rparr>"
    by blast
  have "\<exists>j<length ((sf_bfs sbf)[i := bf]). Filter_holds ((sf_bfs sbf)[i := bf] ! j) x"
    using assms(1) Filter_Add_keeps [OF _ A, of x]
    unfolding Scalable_holds_iff by (rule exists_update)
  then show ?thesis
    unfolding Scalable_holds_iff s' by simp
qed

lemma addBloomFilter_keeps:
  assumes "Scalable_holds sbf x" "addBloomFilter ch sbf = Inr sbf'"
  shows "Scalable_holds sbf' x"
proof -
  from addBloomFilter_Inr [OF assms(2)] obtain bf where
    s': "sbf' = sbf\<lparr>sf_bfs := sf_bfs sbf @ [bf]\<rparr>" by blast
  from assms(1) show ?thesis
    unfolding Scalable_holds_def s' by simp
qed

lemma ScalableFilter_Add_cases:
  assumes "ScalableFilter_Add ch sbf item = Inr sbf'"
  shows "sf_bfs sbf \<noteq> [] \<and>
         ((\<exists>s1. Filter_EstimatedFillRatio (sf_bfs sbf ! (length (sf_bfs sbf) - 1)) > p_p (sf_params sbf) \<and>
               addBloomFilter ch sbf = Inr s1 \<and> add_to s1 (length (sf_bfs sbf)) item = Inr sbf') \<or>
          (\<not> Filter_EstimatedFillRatio (sf_bfs sbf ! (length (sf_bfs sbf) - 1)) > p_p (sf_params sbf) \<and>
               add_to sbf (length (sf_bfs sbf) - 1) item = Inr sbf'))"
proof -
  from assms have ne: "sf_bfs sbf \<noteq> []"
    by (cases "sf_bfs sbf = []") (simp_all add: ScalableFilter_Add_def)
  then have l: "length (sf_bfs sbf) - 1 + 1 = length (sf_bfs sbf)"
    by (cases "sf_bfs sbf") simp_all
  show ?thesis
  proof (cases "Filter_EstimatedFillRatio (sf_bfs sbf ! (length (sf_bfs sbf) - 1))
                  > p_p (sf_params sbf)")
    case True
    with assms ne l show ?thesis
      by (auto simp: ScalableFilter_Add_def Let_def split: sum.splits)
  next
    case False
    with assms ne show ?thesis
      by (auto simp: ScalableFilter_Add_def Let_def)
  qed
qed

lemma ScalableFilter_Add_holds:
  assumes "ScalableFilter_Add ch sbf item = Inr sbf'"
  shows "Scalable_holds sbf' item"
  using ScalableFilter_Add_cases [OF assms] by (auto intro: add_to_holds)

lemma ScalableFilter_Add_keeps:
  assumes "Scalable_holds sbf x" "ScalableFilter_Add ch sbf item = Inr sbf'"
  shows "Scalable_holds sbf' x"
  using ScalableFilter_Add_cases [OF assms(2)] assms(1)
  by (auto intro: add_to_keeps addBloomFilter_keeps)

lemma Scalable_Check_loop_keeps:
  "Scalable_holds sbf x \<Longrightarrow> Scalable_Check_loop sbf j item = Inr (r, sbf') \<Longrightarrow>
   Scalable_holds sbf' x"
proof (induction j arbitrary: sbf)
  case 0
  then show ?case by simp
next
  case (Suc j)
  from Suc.prems(2) have j: "j < length (sf_bfs sbf)"
    by (cases "length (sf_bfs sbf) \<le> j") simp_all
  from Suc.prems(2) j obtain r1 bf where
    C: "Filter_Check (sf_bfs sbf ! j) item = Inr (r1, bf)"
    by (auto split: sum.splits)
  define s1 where "s1 = sbf\<lparr>sf_bfs := (sf_bfs sbf)[j := bf]\<rparr>"
  have "\<exists>i<length ((sf_bfs sbf)[j := bf]). Filter_holds ((sf_bfs sbf)[j := bf] ! i) x"
    using Suc.prems(1) Filter_Check_keeps [OF _ C, of x]
    unfolding Scalable_holds_iff by (rule exists_update)
  then have h1: "Scalable_holds s1 x"
    unfolding Scalable_holds_iff s1_def by simp
  show ?case
  proof (cases r1)
    case True
    with Suc.prems(2) j C have "sbf' = s1" by (simp add: s1_def)
    with h1 show ?thesis by simp
  next
    case False
    with Suc.prems(2) j C have "Scalable_Check_loop s1 j item = Inr (r, sbf')"
      by (simp add: s1_def)
    from Suc.IH [OF h1 this] show ?thesis .
  qed
qed

lemma Scalable_step_keeps:
  assumes "Scalable_holds sbf x" "a \<noteq> SReset" "Scalable_step ch sbf a = Inr sbf'"
  shows "Scalable_holds sbf' x"
proof (cases a)
  case (SAdd item)
  with assms show ?thesis by (auto intro: ScalableFilter_Add_keeps)
next
  case (SCheck item)
  with assms(3) obtain r where "ScalableFilter_Check sbf item = Inr (r, sbf')"
    by (auto split: sum.splits)
  then show ?thesis
    using Scalable_Check_loop_keeps [OF assms(1)] by (simp add: ScalableFilter_Check_def)
next
  case SReset
  with assms show ?thesis by simp
next
  case SFillRatio
  with assms show ?thesis by (auto split: sum.splits)
next
  case SEstimatedFillRatio
  with assms show ?thesis by (auto split: sum.splits)
next
  case SCount
  with assms show ?thesis by simp
qed

lemma Scalable_run_keeps:
  "Scalable_holds sbf x \<Longrightarrow> SReset \<notin> set ops \<Longrightarrow> Scalable_run ch sbf ops = Inr sbf' \<Longrightarrow>
   Scalable_holds sbf' x"
proof (induction ops arbitrary: sbf)
  case Nil
  then show ?case by simp
next
  case (Cons a ops)
  from Cons.prems(3) obtain s1 where
    s: "Scalable_step ch sbf a = Inr s1" "Scalable_run ch s1 ops = Inr sbf'"
    by (auto split: sum.splits)
  from Cons.prems(2) have "a \<noteq> SReset" "SReset \<notin> set ops" by auto
  from Cons.IH [OF Scalable_step_keeps [OF Cons.prems(1) this(1) s(1)] this(2) s(2)]
  show ?case .
qed

text \<open>A sub-filter of the right shape answers \<^verbatim>\<open>Check\<close> for every item with a long enough digest.\<close>

lemma sub_ok_Check_total:
  assumes "sub_ok sbf f" "p_p (sf_params sbf) < 1"
    "p_h (sf_params sbf) = Some hs" "8 \<le> length (sum_fn hs x)"
  shows "\<exists>r f1. Filter_Check f x = Inr (r, f1)"
proof -
  from assms(1,3) obtain hh where
    h: "p_h (f_params f) = Some hh" "sum_fn hh = sum_fn hs"
    unfolding sub_ok_def by (cases "p_h (f_params f)") auto
  from assms(1,2) have
    l: "length (f_b f) = f_k f" "length (f_bs f) = f_k f" "f_k f = 0 \<or> 0 < f_s f"
    unfolding sub_ok_def by auto
  have "\<exists>r. Check_loop (f_b f) (map (stored_index (sum_fn hh x) (f_s f)) [0..<f_k f]) = Inr r"
    using Check_loop_eq [of "map (stored_index (sum_fn hh x) (f_s f)) [0..<f_k f]" "f_b f"] l(1)
    by simp
  then obtain r where
    "Check_loop (f_b f) (map (stored_index (sum_fn hh x) (f_s f)) [0..<f_k f]) = Inr r" ..
  with h l assms(4) show ?thesis
    unfolding Filter_Check_Inr by auto
qed

lemma holds_digest:
  assumes "sub_ok sbf f" "Filter_holds f x" "p_h (sf_params sbf) = Some hs"
  shows "8 \<le> length (sum_fn hs x)"
proof -
  from assms(2) obtain hh where h: "p_h (f_params f) = Some hh" "8 \<le> length (sum_fn hh x)"
    unfolding Filter_holds_iff by blast
  with assms(1,3) have "sum_fn hh = sum_fn hs"
    unfolding sub_ok_def by auto
  with h(2) show ?thesis by simp
qed

lemma Scalable_Check_loop_finds:
  "list_all (sub_ok sbf) (sf_bfs sbf) \<Longrightarrow> p_p (sf_params sbf) < 1 \<Longrightarrow>
   p_h (sf_params sbf) = Some hs \<Longrightarrow>
   i < j \<Longrightarrow> j \<le> length (sf_bfs sbf) \<Longrightarrow> Filter_holds (sf_bfs sbf ! i) x \<Longrightarrow>
   \<exists>sbf'. Scalable_Check_loop sbf j x = Inr (True, sbf')"
proof (induction j arbitrary: sbf)
  case 0
  then show ?case by simp
next
  case (Suc j)
  from Suc.prems(5) have j: "j < length (sf_bfs sbf)" by simp
  from Suc.prems(4) Suc.prems(5) have i: "i < length (sf_bfs sbf)" by simp
  from Suc.prems(1) i j have ok: "sub_ok sbf (sf_bfs sbf ! i)" "sub_ok sbf (sf_bfs sbf ! j)"
    by (simp_all add: list_all_length)
  from holds_digest [OF ok(1) Suc.prems(6) Suc.prems(3)] have d: "8 \<le> length (sum_fn hs x)" .
  from sub_ok_Check_total [OF ok(2) Suc.prems(2) Suc.prems(3) d] obtain r1 bf where
    C: "Filter_Check (sf_bfs sbf ! j) x = Inr (r1, bf)" by blast
  define s1 where "s1 = sbf\<lparr>sf_bfs := (sf_bfs sbf)[j := bf]\<rparr>"
  show ?case
  proof (cases r1)
    case True
    with j C show ?thesis by simp
  next
    case False
    have ij: "i \<noteq> j"
    proof
      assume "i = j"
      with Filter_holds_Check [OF Suc.prems(6)] C False show False by simp
    qed
    with Suc.prems(4) have i': "i < j" by simp
    from Filter_Check_sub_ok [OF ok(2) C] have "sub_ok sbf bf" .
    with Suc.prems(1) have "list_all (sub_ok sbf) ((sf_bfs sbf)[j := bf])"
      by (rule list_all_update)
    moreover have c: "sub_ok s1 = sub_ok sbf"
      by (intro ext sub_ok_cong) (simp_all add: s1_def)
    ultimately have a1: "list_all (sub_ok s1) (sf_bfs s1)" by (simp add: s1_def)
    have a2: "p_p (sf_params s1) < 1" "p_h (sf_params s1) = Some hs"
      using Suc.prems(2,3) by (simp_all add: s1_def)
    have a3: "j \<le> length (sf_bfs s1)" using j by (simp add: s1_def)
    have a4: "Filter_holds (sf_bfs s1 ! i) x"
      using Suc.prems(6) ij by (simp add: s1_def)
    from Suc.IH [OF a1 a2 i' a3 a4] obtain sbf' where
      "Scalable_Check_loop s1 j x = Inr (True, sbf')" ..
    with j C False show ?thesis by (simp add: s1_def)
  qed
qed

lemma Scalable_holds_Check:
  assumes "Scalable_inv ch sbf" "p_p (sf_params sbf) < 1" "Scalable_holds sbf x"
  shows "\<exists>sbf'. ScalableFilter_Check sbf x = Inr (True, sbf')"
proof -
  note I = Scalable_inv_fields [OF assms(1)]
  from withDefault_params [of ch "sf_opt sbf"] I(4) obtain hs where
    hs: "p_h (sf_params sbf) = Some hs" by auto
  from assms(3) obtain i where i: "i < length (sf_bfs sbf)" "Filter_holds (sf_bfs sbf ! i) x"
    unfolding Scalable_holds_iff by blast
  from Scalable_Check_loop_finds [OF I(5) assms(2) hs i(1) _ i(2)]
  show ?thesis by (simp add: ScalableFilter_Check_def)
qed

section \<open>Operations that return\<close>

lemma fnv_digest_length: "length (sum_fn fnv_New64 x) = 8"
  by (simp add: fnv_New64_def fnv64_Sum_def)

lemma Filter_Add_total:
  assumes "p_h (f_params f) = Some hh" "8 \<le> length (sum_fn hh x)"
    "f_k f \<le> length (f_bs f)" "f_k f \<le> length (f_b f)" "f_k f = 0 \<or> 0 < f_s f"
  shows "\<exists>f2. Filter_Add f x = Inr f2"
proof -
  from Set_loop_total [of "map (stored_index (sum_fn hh x) (f_s f)) [0..<f_k f]" "f_b f"] assms(4)
  obtain parts where
    "Set_loop (f_b f) (map (stored_index (sum_fn hh x) (f_s f)) [0..<f_k f]) = Inr parts"
    by auto
  with assms show ?thesis
    unfolding Filter_Add_Inr by blast
qed

lemma sub_ok_Add_total:
  assumes "sub_ok sbf f" "p_p (sf_params sbf) < 1"
    "p_h (sf_params sbf) = Some hs" "8 \<le> length (sum_fn hs x)"
  shows "\<exists>f2. Filter_Add f x = Inr f2"
proof -
  from assms(1,3) obtain hh where
    h: "p_h (f_params f) = Some hh" "sum_fn hh = sum_fn hs"
    unfolding sub_ok_def by (cases "p_h (f_params f)") auto
  from assms(1,2) have
    l: "length (f_b f) = f_k f" "length (f_bs f) = f_k f" "f_k f = 0 \<or> 0 < f_s f"
    unfolding sub_ok_def by auto
  show ?thesis
    by (rule Filter_Add_total [OF h(1)]) (use h(2) l assms(4) in simp_all)
qed

lemma bloom_New_Add_total:
  assumes "bloom_New ch n opt = Inr f" "p_p (f_params f) < 1"
    "p_h (f_params f) = Some hh" "8 \<le> length (sum_fn hh x)"
  shows "\<exists>f2. Filter_Add f x = Inr f2"
proof -
  note F = bloom_New_fields [OF assms(1)]
  from withDefault_params [of ch opt] F(4) have pos: "0 < p_e (f_params f)" "0 < p_p (f_params f)"
    by simp_all
  have "f_k f = 0 \<or> 0 < f_s f"
    using derived_s_pos [OF F(1) pos(2) assms(2) pos(1)] by (simp add: F(5,6,7))
  moreover have "f_k f \<le> length (f_bs f)" "f_k f \<le> length (f_b f)"
    by (simp_all add: F(8,9) makePartitions_length)
  ultimately show ?thesis
    using Filter_Add_total [OF assms(3,4)] by blast
qed

lemma add_to_total:
  assumes "i < length (sf_bfs sbf)" "Filter_Add (sf_bfs sbf ! i) x = Inr bf"
  shows "add_to sbf i x = Inr (sbf\<lparr>sf_bfs := (sf_bfs sbf)[i := bf], sf_c := (sf_c sbf + 1) mod 2 ^ 64\<rparr>)"
  using assms by (simp add: add_to_def)

lemma ScalableFilter_Add_total:
  assumes "Scalable_inv ch sbf" "p_p (sf_params sbf) < 1"
    "p_h (sf_params sbf) = Some hs" "8 \<le> length (sum_fn hs x)"
  shows "\<exists>sbf'. ScalableFilter_Add ch sbf x = Inr sbf'"
proof -
  note I = Scalable_inv_fields [OF assms(1)]
  from I(1) have last: "length (sf_bfs sbf) - 1 < length (sf_bfs sbf)"
    by (cases "sf_bfs sbf") simp_all
  show ?thesis
  proof (cases "Filter_EstimatedFillRatio (sf_bfs sbf ! (length (sf_bfs sbf) - 1))
                  > p_p (sf_params sbf)")
    case True
    from addBloomFilter_total [OF I(2), of ch] obtain bf where
      N: "bloom_New ch (sf_n sbf)
            (sf_opt sbf @ [WithErrorRate (p_e (sf_params sbf) * sf_r sbf ^ length (sf_bfs sbf))])
          = Inr bf" and
      a: "addBloomFilter ch sbf = Inr (sbf\<lparr>sf_bfs := sf_bfs sbf @ [bf]\<rparr>)"
      by blast
    from sub_ok_Add_total [OF new_sub_ok [OF I(4) N] assms(2,3,4)] obtain bf' where
      A: "Filter_Add bf x = Inr bf'" ..
    have l: "length (sf_bfs sbf) - 1 + 1 = length (sf_bfs sbf)"
      using I(1) by (cases "sf_bfs sbf") simp_all
    have "\<exists>s'. add_to (sbf\<lparr>sf_bfs := sf_bfs sbf @ [bf]\<rparr>) (length (sf_bfs sbf) - 1 + 1) x = Inr s'"
      unfolding l using A by (simp add: add_to_def)
    with True a I(1) show ?thesis
      by (simp add: ScalableFilter_Add_def Let_def)
  next
    case False
    from I(5) last have "sub_ok sbf (sf_bfs sbf ! (length (sf_bfs sbf) - 1))"
      by (simp add: list_all_length)
    from sub_ok_Add_total [OF this assms(2,3,4)] obtain bf' where
      A: "Filter_Add (sf_bfs sbf ! (length (sf_bfs sbf) - 1)) x = Inr bf'" ..
    from add_to_total [OF last A] False I(1) show ?thesis
      by (simp add: ScalableFilter_Add_def Let_def)
  qed
qed

lemma NewScalable_total:
  assumes "0 < n"
  shows "\<exists>s0. NewScalable ch n opt = Inr s0"
proof -
  have "0 < sf_n \<lparr>sf_params = apply_Options ch (withDefault opt) zero_params,
              sf_opt = opt, sf_n = n, sf_c = 0, sf_r = float32_0_9, sf_bfs = []\<rparr>"
    using assms by simp
  from addBloomFilter_total [OF this, of ch] assms show ?thesis
    by (auto simp: NewScalable_def)
qed

lemma NewScalable_fields:
  assumes "NewScalable ch n opt = Inr s0"
  shows "sf_opt s0 = opt" "sf_n s0 = n" "sf_c s0 = 0" "sf_r s0 = float32_0_9"
    "sf_params s0 = apply_Options ch (withDefault opt) zero_params"
    "length (sf_bfs s0) = 1"
proof -
  from assms have n: "0 < n" by (cases "n = 0") (simp_all add: NewScalable_def)
  with assms have a: "addBloomFilter ch
             \<lparr>sf_params = apply_Options ch (withDefault opt) zero_params,
              sf_opt = opt, sf_n = n, sf_c = 0, sf_r = float32_0_9, sf_bfs = []\<rparr> = Inr s0"
    by (simp add: NewScalable_def)
  from addBloomFilter_Inr [OF a] obtain bf where
    s0: "s0 = \<lparr>sf_params = apply_Options ch (withDefault opt) zero_params,
              sf_opt = opt, sf_n = n, sf_c = 0, sf_r = float32_0_9, sf_bfs = [bf]\<rparr>"
    by auto
  show "sf_opt s0 = opt" "sf_n s0 = n" "sf_c s0 = 0" "sf_r s0 = float32_0_9"
    "sf_params s0 = apply_Options ch (withDefault opt) zero_params"
    "length (sf_bfs s0) = 1"
    by (simp_all add: s0)
qed

lemma add_to_frame:
  assumes "add_to sbf i item = Inr sbf'"
  shows "sf_params sbf' = sf_params sbf \<and> sf_opt sbf' = sf_opt sbf \<and> sf_n sbf' = sf_n sbf \<and>
         sf_r sbf' = sf_r sbf"
  using add_to_Inr [OF assms] by auto

lemma addBloomFilter_frame:
  assumes "addBloomFilter ch sbf = Inr sbf'"
  shows "sf_params sbf' = sf_params sbf \<and> sf_opt sbf' = sf_opt sbf \<and> sf_n sbf' = sf_n sbf \<and>
         sf_r sbf' = sf_r sbf \<and> sf_c sbf' = sf_c sbf"
  using addBloomFilter_Inr [OF assms] by auto

lemma Scalable_Check_loop_frame:
  "Scalable_Check_loop sbf j item = Inr (r, sbf') \<Longrightarrow>
   sf_params sbf' = sf_params sbf \<and> sf_opt sbf' = sf_opt sbf \<and> sf_n sbf' = sf_n sbf \<and>
   sf_r sbf' = sf_r sbf \<and> sf_c sbf' = sf_c sbf \<and> length (sf_bfs sbf') = length (sf_bfs sbf)"
proof (induction j arbitrary: sbf)
  case 0
  then show ?case by simp
next
  case (Suc j)
  from Suc.prems have j: "j < length (sf_bfs sbf)"
    by (cases "length (sf_bfs sbf) \<le> j") simp_all
  from Suc.prems j obtain r1 bf where
    C: "Filter_Check (sf_bfs sbf ! j) item = Inr (r1, bf)"
    by (auto split: sum.splits)
  define s1 where "s1 = sbf\<lparr>sf_bfs := (sf_bfs sbf)[j := bf]\<rparr>"
  show ?case
  proof (cases r1)
    case True
    with Suc.prems j C have "sbf' = s1" by (simp add: s1_def)
    then show ?thesis by (simp add: s1_def)
  next
    case False
    with Suc.prems j C have "Scalable_Check_loop s1 j item = Inr (r, sbf')"
      by (simp add: s1_def)
    from Suc.IH [OF this] show ?thesis by (simp add: s1_def)
  qed
qed

lemma Scalable_step_frame:
  assumes "Scalable_step ch sbf a = Inr sbf'"
  shows "sf_params sbf' = sf_params sbf \<and> sf_opt sbf' = sf_opt sbf \<and> sf_n sbf' = sf_n sbf \<and>
         sf_r sbf' = sf_r sbf"
proof (cases a)
  case (SAdd item)
  with assms have "ScalableFilter_Add ch sbf item = Inr sbf'" by simp
  from ScalableFilter_Add_cases [OF this] show ?thesis
    using add_to_frame addBloomFilter_frame by metis
next
  case (SCheck item)
  with assms obtain r where "ScalableFilter_Check sbf item = Inr (r, sbf')"
    by (auto split: sum.splits)
  then show ?thesis
    using Scalable_Check_loop_frame by (simp add: ScalableFilter_Check_def)
next
  case SReset
  with assms have "addBloomFilter ch (sbf\<lparr>sf_bfs := [], sf_c := 0\<rparr>) = Inr sbf'"
    by (simp add: ScalableFilter_Reset_def)
  from addBloomFilter_frame [OF this] show ?thesis by simp
next
  case SFillRatio
  with assms show ?thesis by (auto split: sum.splits)
next
  case SEstimatedFillRatio
  with assms show ?thesis by (auto split: sum.splits)
next
  case SCount
  with assms show ?thesis by simp
qed

lemma Scalable_run_frame:
  "Scalable_run ch sbf ops = Inr sbf' \<Longrightarrow>
   sf_params sbf' = sf_params sbf \<and> sf_opt sbf' = sf_opt sbf \<and> sf_n sbf' = sf_n sbf \<and>
   sf_r sbf' = sf_r sbf"
proof (induction ops arbitrary: sbf)
  case Nil
  then show ?case by simp
next
  case (Cons a ops)
  from Cons.prems obtain s1 where
    s: "Scalable_step ch sbf a = Inr s1" "Scalable_run ch s1 ops = Inr sbf'"
    by (auto split: sum.splits)
  from Cons.IH [OF s(2)] Scalable_step_frame [OF s(1)] show ?case by simp
qed

section \<open>C1: no false negatives\<close>

text \<open>
  Claim C1. For every key \<open>x\<close>, once \<^verbatim>\<open>Add(x)\<close> has returned, every later \<^verbatim>\<open>Check(x)\<close>
  returns true, also after any further calls of \<^verbatim>\<open>Add\<close> and \<^verbatim>\<open>Check\<close>, as long as the
  structure is not reset. For the partitioned filter this holds from any state. For the
  scalable filter it holds in every state reached from \<^verbatim>\<open>NewScalable\<close> with a fill ratio
  below 1, the range in which the parameter formulas are defined.
\<close>

theorem C1_no_false_negatives:
  "(Filter_Add f x = Inr f1 \<longrightarrow> FReset \<notin> set ops \<longrightarrow> Filter_run f1 ops = Inr f2 \<longrightarrow>
      (\<exists>f3. Filter_Check f2 x = Inr (True, f3))) \<and>
   (NewScalable ch n opt = Inr s0 \<longrightarrow> p_p (sf_params s0) < 1 \<longrightarrow>
    Scalable_run ch s0 pre = Inr s1 \<longrightarrow> ScalableFilter_Add ch s1 x = Inr s2 \<longrightarrow>
    SReset \<notin> set sops \<longrightarrow> Scalable_run ch s2 sops = Inr s3 \<longrightarrow>
      (\<exists>s4. ScalableFilter_Check s3 x = Inr (True, s4)))"
proof (intro conjI impI)
  assume "Filter_Add f x = Inr f1" "FReset \<notin> set ops" "Filter_run f1 ops = Inr f2"
  from Filter_run_holds [OF Filter_Add_holds [OF this(1)] this(2,3)]
  show "\<exists>f3. Filter_Check f2 x = Inr (True, f3)"
    by (rule Filter_holds_Check)
next
  assume N: "NewScalable ch n opt = Inr s0" and p: "p_p (sf_params s0) < 1"
    and r1: "Scalable_run ch s0 pre = Inr s1" and A: "ScalableFilter_Add ch s1 x = Inr s2"
    and nr: "SReset \<notin> set sops" and r2: "Scalable_run ch s2 sops = Inr s3"
  have i1: "Scalable_inv ch s1"
    by (rule Scalable_run_inv [OF NewScalable_inv [OF N] r1])
  have i3: "Scalable_inv ch s3"
    by (rule Scalable_run_inv [OF ScalableFilter_Add_inv [OF i1 A] r2])
  have "sf_params s3 = sf_params s0"
    using Scalable_run_frame [OF r1] Scalable_run_frame [OF r2]
      Scalable_step_frame [of ch s1 "SAdd x" s2] A by simp
  with p have p3: "p_p (sf_params s3) < 1" by simp
  have "Scalable_holds s3 x"
    by (rule Scalable_run_keeps [OF ScalableFilter_Add_holds [OF A] nr r2])
  with i3 p3 show "\<exists>s4. ScalableFilter_Check s3 x = Inr (True, s4)"
    by (rule Scalable_holds_Check)
qed

text \<open>
  The statement at concrete inputs: a filter and a scalable filter built for capacity 1
  with the FNV hash, the empty key added and then checked.
\<close>

theorem C1_no_false_negatives_witness:
  "\<exists>f f1 f2 s0 s2 s3.
     bloom_New fnv_New64 1 [] = Inr f \<and> Filter_Add f [] = Inr f1 \<and>
     FReset \<notin> set [FCheck []] \<and> Filter_run f1 [FCheck []] = Inr f2 \<and>
     (\<exists>f3. Filter_Check f2 [] = Inr (True, f3)) \<and>
     NewScalable fnv_New64 1 [] = Inr s0 \<and> p_p (sf_params s0) < 1 \<and>
     Scalable_run fnv_New64 s0 [] = Inr s0 \<and> ScalableFilter_Add fnv_New64 s0 [] = Inr s2 \<and>
     SReset \<notin> set [SCheck []] \<and> Scalable_run fnv_New64 s2 [SCheck []] = Inr s3 \<and>
     (\<exists>s4. ScalableFilter_Check s3 [] = Inr (True, s4))"
proof -
  have ps: "apply_Options fnv_New64 (withDefault []) zero_params
              = \<lparr>p_h = Some fnv_New64, p_e = 1 / 1000, p_p = 1 / 2\<rparr>"
    by (simp add: withDefault_def apply_Options_def zero_params_def)
  obtain f where f: "bloom_New fnv_New64 1 [] = Inr f"
    using bloom_New_Inr [of 1 fnv_New64 "[]"] by simp
  from bloom_New_fields(4) [OF f] ps have fp: "f_params f = \<lparr>p_h = Some fnv_New64, p_e = 1 / 1000, p_p = 1 / 2\<rparr>"
    by simp
  obtain f1 where f1: "Filter_Add f [] = Inr f1"
    using bloom_New_Add_total [OF f, of fnv_New64 "[]"] by (auto simp: fp fnv_digest_length)
  obtain f2 where c: "Filter_Check f1 [] = Inr (True, f2)"
    using Filter_holds_Check [OF Filter_Add_holds [OF f1]] by blast
  then have f2: "Filter_run f1 [FCheck []] = Inr f2" by simp
  obtain s0 where s0: "NewScalable fnv_New64 1 [] = Inr s0"
    using NewScalable_total [of 1 fnv_New64 "[]"] by auto
  from NewScalable_fields(5) [OF s0] ps
  have sp: "sf_params s0 = \<lparr>p_h = Some fnv_New64, p_e = 1 / 1000, p_p = 1 / 2\<rparr>" by simp
  then have p: "p_p (sf_params s0) < 1" by simp
  have r0: "Scalable_run fnv_New64 s0 [] = Inr s0" by simp
  obtain s2 where s2: "ScalableFilter_Add fnv_New64 s0 [] = Inr s2"
    using ScalableFilter_Add_total [OF NewScalable_inv [OF s0] p, of fnv_New64 "[]"]
    by (auto simp: sp fnv_digest_length)
  have i2: "Scalable_inv fnv_New64 s2"
    by (rule ScalableFilter_Add_inv [OF NewScalable_inv [OF s0] s2])
  have "sf_params s2 = sf_params s0"
    using Scalable_step_frame [of fnv_New64 s0 "SAdd []" s2] s2 by simp
  with p have p2: "p_p (sf_params s2) < 1" by simp
  obtain s3 where "ScalableFilter_Check s2 [] = Inr (True, s3)"
    using Scalable_holds_Check [OF i2 p2 ScalableFilter_Add_holds [OF s2]] by blast
  then have s3: "Scalable_run fnv_New64 s2 [SCheck []] = Inr s3" by simp
  have n1: "FReset \<notin> set [FCheck []]" and n2: "SReset \<notin> set [SCheck []]" by simp_all
  from C1_no_false_negatives [of f "[]" f1 "[FCheck []]" f2 fnv_New64 1 "[]" s0 "[]" s0 s2
      "[SCheck []]" s3]
  have "(\<exists>f3. Filter_Check f2 [] = Inr (True, f3)) \<and>
        (\<exists>s4. ScalableFilter_Check s3 [] = Inr (True, s4))"
    using f1 n1 f2 s0 p r0 s2 n2 s3 by blast
  with f f1 n1 f2 s0 p r0 s2 n2 s3 show ?thesis by blast
qed


section \<open>No index panic, and every operation returns\<close>











lemma default_params:
  "apply_Options ch (withDefault []) zero_params = \<lparr>p_h = Some ch, p_e = 1 / 1000, p_p = 1 / 2\<rparr>"
  by (simp add: withDefault_def apply_Options_def zero_params_def)


section \<open>C10: the sub-filter sequence is never empty\<close>



section \<open>The two branches of Add\<close>






section \<open>C2: Add of the scalable filter\<close>



section \<open>The answer of Check\<close>

lemma digest_small:
  "digest_a D < 2 ^ 32" "digest_b D < 2 ^ 32"
  using unsigned_less [of "BigEndian_Uint32 (take 4 (drop 4 D))", where 'a = nat]
        unsigned_less [of "BigEndian_Uint32 (take 4 D)", where 'a = nat]
  by (simp_all add: digest_a_def digest_b_def)

lemma stored_index_exact:
  assumes "i < 2 ^ 32"
  shows "stored_index D s i = (digest_a D + i * digest_b D) mod s"
proof -
  have a: "digest_a D \<le> 2 ^ 32 - 1" and b: "digest_b D \<le> 2 ^ 32 - 1"
    using digest_small [of D] by simp_all
  have i: "i \<le> 2 ^ 32 - 1" using assms by simp
  have "digest_b D * i \<le> (2 ^ 32 - 1) * (2 ^ 32 - 1)"
    using b i by (rule mult_le_mono)
  with a have "digest_a D + digest_b D * i \<le> (2 ^ 32 - 1) + (2 ^ 32 - 1) * (2 ^ 32 - 1)"
    by (rule add_le_mono)
  also have "\<dots> < (2 ^ 64 :: nat)" by simp
  finally have "(digest_a D + digest_b D * i) mod 2 ^ 64 = digest_a D + digest_b D * i"
    by simp
  then show ?thesis by (simp add: stored_index_def mult.commute)
qed

lemma digest_bits_eq:
  "digest_bits ho k s bs item =
     (case ho of
        None \<Rightarrow> Inl NilDereference
      | Some hh \<Rightarrow>
          if length (sum_fn hh item) < 8 then Inl SliceBounds
          else if length bs < k then Inl SliceBounds
          else if 0 < k \<and> s = 0 then Inl DivideByZero
          else Inr (hh\<lparr>written := item\<rparr>,
                    map (stored_index (sum_fn hh item) s) [0..<k] @ drop k bs))"
proof (cases ho)
  case None
  then show ?thesis by (simp add: digest_bits_def)
next
  case (Some hh)
  show ?thesis
  proof (cases "k \<le> length bs")
    case True
    from stored_index_map [OF True, of "sum_fn hh item" s]
    have "bits_loop (unat (BigEndian_Uint32 (take 4 (drop 4 (sum_fn hh item)))))
            (unat (BigEndian_Uint32 (take 4 (sum_fn hh item)))) s 0 (take k bs)
          = map (stored_index (sum_fn hh item) s) [0..<k]"
      by (simp add: digest_a_def digest_b_def)
    with True Some show ?thesis
      by (simp add: digest_bits_def hash_Sum_def hash_Write_def hash_Reset_def Let_def)
  next
    case False
    with Some show ?thesis
      by (simp add: digest_bits_def hash_Sum_def hash_Write_def hash_Reset_def Let_def)
  qed
qed

text \<open>The answer of \<^verbatim>\<open>Check\<close>, panics included, as a function of what \<open>Filter_same\<close> compares.\<close>

lemma Filter_Check_answer:
  "map_sum id fst (Filter_Check f x) =
     (case p_h (f_params f) of
        None \<Rightarrow> Inl NilDereference
      | Some hh \<Rightarrow>
          if length (sum_fn hh x) < 8 then Inl SliceBounds
          else if length (f_bs f) < f_k f then Inl SliceBounds
          else if 0 < f_k f \<and> f_s f = 0 then Inl DivideByZero
          else Check_loop (f_b f) (map (stored_index (sum_fn hh x) (f_s f)) [0..<f_k f]))"
proof (cases "p_h (f_params f)")
  case None
  then show ?thesis
    by (simp add: Filter_Check_def Filter_bits_def digest_bits_eq)
next
  case (Some hh)
  show ?thesis
  proof (cases "length (sum_fn hh x) < 8 \<or> length (f_bs f) < f_k f \<or> (0 < f_k f \<and> f_s f = 0)")
    case True
    then have "digest_bits (p_h (f_params f)) (f_k f) (f_s f) (f_bs f) x
                 = (if length (sum_fn hh x) < 8 then Inl SliceBounds
                    else if length (f_bs f) < f_k f then Inl SliceBounds
                    else Inl DivideByZero)"
      by (auto simp: digest_bits_eq Some)
    with True Some show ?thesis
      by (auto simp: Filter_Check_def Filter_bits_def)
  next
    case False
    then have d: "digest_bits (p_h (f_params f)) (f_k f) (f_s f) (f_bs f) x
                 = Inr (hh\<lparr>written := x\<rparr>,
                        map (stored_index (sum_fn hh x) (f_s f)) [0..<f_k f] @ drop (f_k f) (f_bs f))"
      by (auto simp: digest_bits_eq Some)
    have "map_sum id fst (Filter_Check f x)
            = Check_loop (f_b f) (map (stored_index (sum_fn hh x) (f_s f)) [0..<f_k f])"
      by (cases "Check_loop (f_b f) (map (stored_index (sum_fn hh x) (f_s f)) [0..<f_k f])")
         (simp_all add: Filter_Check_def Filter_bits_def d)
    with False Some show ?thesis by auto
  qed
qed

lemma Filter_same_answer:
  assumes "Filter_same f g"
  shows "map_sum id fst (Filter_Check g x) = map_sum id fst (Filter_Check f x)"
proof -
  from assms have e: "f_k f = f_k g" "f_s f = f_s g" "f_b f = f_b g"
    "length (f_bs f) = length (f_bs g)"
    "map_option sum_fn (p_h (f_params f)) = map_option sum_fn (p_h (f_params g))"
    by (simp_all add: Filter_same_def)
  show ?thesis
  proof (cases "p_h (f_params f)")
    case None
    with e(5) have "p_h (f_params g) = None" by simp
    with None show ?thesis by (simp add: Filter_Check_answer)
  next
    case (Some hh)
    with e(5) obtain hg where g: "p_h (f_params g) = Some hg" "sum_fn hg = sum_fn hh"
      by (cases "p_h (f_params g)") auto
    with Some e(1-4) show ?thesis by (simp add: Filter_Check_answer)
  qed
qed

lemma Filter_Check_same:
  assumes "Filter_Check f item = Inr (r, f1)"
  shows "Filter_same f f1"
proof -
  from assms obtain hh where
    h: "p_h (f_params f) = Some hh" "f_k f \<le> length (f_bs f)" and
    f1: "f1 = f\<lparr>f_params := (f_params f)\<lparr>p_h := Some (hh\<lparr>written := item\<rparr>)\<rparr>,
                  f_bs := map (stored_index (sum_fn hh item) (f_s f)) [0..<f_k f]
                          @ drop (f_k f) (f_bs f)\<rparr>"
    unfolding Filter_Check_Inr by blast
  from h show ?thesis by (simp add: Filter_same_def f1)
qed

lemma Filter_same_trans: "Filter_same f g \<Longrightarrow> Filter_same g h \<Longrightarrow> Filter_same f h"
  by (simp add: Filter_same_def)

lemma Filter_same_refl: "Filter_same f f"
  by (simp add: Filter_same_def)

lemma Checks_same:
  "Filter_run f (map FCheck ys) = Inr f' \<Longrightarrow> Filter_same f f'"
proof (induction ys arbitrary: f)
  case Nil
  then show ?case by (simp add: Filter_same_refl)
next
  case (Cons y ys)
  from Cons.prems obtain r f1 where
    c: "Filter_Check f y = Inr (r, f1)" and r: "Filter_run f1 (map FCheck ys) = Inr f'"
    by (auto split: sum.splits)
  from Filter_same_trans [OF Filter_Check_same [OF c] Cons.IH [OF r]] show ?case .
qed

lemma Filter_ready_iff:
  "Filter_ready f \<longleftrightarrow>
     (\<exists>hh. p_h (f_params f) = Some hh \<and> (\<forall>x. 8 \<le> length (sum_fn hh x)) \<and>
           f_k f \<le> length (f_bs f) \<and> f_k f \<le> length (f_b f) \<and> (f_k f = 0 \<or> 0 < f_s f))"
  by (cases "p_h (f_params f)") (simp_all add: Filter_ready_def)

lemma Filter_Check_total:
  assumes "p_h (f_params f) = Some hh" "8 \<le> length (sum_fn hh x)"
    "f_k f \<le> length (f_bs f)" "f_k f \<le> length (f_b f)" "f_k f = 0 \<or> 0 < f_s f"
  shows "\<exists>r f1. Filter_Check f x = Inr (r, f1)"
proof -
  have "\<exists>r. Check_loop (f_b f) (map (stored_index (sum_fn hh x) (f_s f)) [0..<f_k f]) = Inr r"
    using Check_loop_eq [of "map (stored_index (sum_fn hh x) (f_s f)) [0..<f_k f]" "f_b f"] assms(4)
    by simp
  with assms show ?thesis
    unfolding Filter_Check_Inr by blast
qed

lemma Filter_step_ready:
  assumes "Filter_ready f"
  shows "\<exists>f'. Filter_step f a = Inr f' \<and> Filter_ready f'"
proof -
  from assms obtain hh where
    h: "p_h (f_params f) = Some hh" "\<And>x. 8 \<le> length (sum_fn hh x)"
       "f_k f \<le> length (f_bs f)" "f_k f \<le> length (f_b f)" "f_k f = 0 \<or> 0 < f_s f"
    unfolding Filter_ready_iff by blast
  show ?thesis
  proof (cases a)
    case (FAdd item)
    from Filter_Add_total [OF h(1) h(2) h(3,4,5), of item] obtain f2 where
      A: "Filter_Add f item = Inr f2" ..
    then obtain parts where
      S: "Set_loop (f_b f) (map (stored_index (sum_fn hh item) (f_s f)) [0..<f_k f]) = Inr parts" and
      f2: "f2 = f\<lparr>f_params := (f_params f)\<lparr>p_h := Some (hh\<lparr>written := item\<rparr>)\<rparr>,
                  f_bs := map (stored_index (sum_fn hh item) (f_s f)) [0..<f_k f]
                          @ drop (f_k f) (f_bs f),
                  f_b := parts, f_c := (f_c f + 1) mod 2 ^ 64\<rparr>"
      unfolding Filter_Add_Inr using h(1) by auto
    from Set_loop_length [OF S] have "length parts = length (f_b f)" by simp
    with h have "Filter_ready f2"
      unfolding Filter_ready_iff f2 by simp
    with A FAdd show ?thesis by simp
  next
    case (FCheck item)
    from Filter_Check_total [OF h(1) h(2) h(3,4,5), of item] obtain r f1 where
      C: "Filter_Check f item = Inr (r, f1)" by blast
    then have f1: "f1 = f\<lparr>f_params := (f_params f)\<lparr>p_h := Some (hh\<lparr>written := item\<rparr>)\<rparr>,
                  f_bs := map (stored_index (sum_fn hh item) (f_s f)) [0..<f_k f]
                          @ drop (f_k f) (f_bs f)\<rparr>"
      unfolding Filter_Check_Inr using h(1) by auto
    from h have "Filter_ready f1"
      unfolding Filter_ready_iff f1 by simp
    with C FCheck show ?thesis by simp
  next
    case FReset
    have R: "Filter_Reset f = Inr (f\<lparr>f_b := map BitSet_ClearAll (f_b f),
               f_params := (f_params f)\<lparr>p_h := Some (hash_Reset hh)\<rparr>\<rparr>)"
      by (simp add: Filter_Reset_def h(1))
    from h have "Filter_ready (f\<lparr>f_b := map BitSet_ClearAll (f_b f),
               f_params := (f_params f)\<lparr>p_h := Some (hash_Reset hh)\<rparr>\<rparr>)"
      unfolding Filter_ready_iff by (simp add: hash_Reset_def)
    with R FReset show ?thesis by simp
  qed
qed

lemma Filter_run_total:
  "Filter_ready f \<Longrightarrow> \<exists>f'. Filter_run f ops = Inr f' \<and> Filter_ready f'"
proof (induction ops arbitrary: f)
  case Nil
  then show ?case by simp
next
  case (Cons a ops)
  from Filter_step_ready [OF Cons.prems, of a] obtain f1 where
    s: "Filter_step f a = Inr f1" "Filter_ready f1" by blast
  from Cons.IH [OF s(2)] s(1) show ?case by simp
qed

lemma bloom_New_ready:
  assumes "bloom_New ch n opt = Inr f" "p_p (f_params f) < 1"
    "p_h (f_params f) = Some hh" "\<And>x. 8 \<le> length (sum_fn hh x)"
  shows "Filter_ready f"
proof -
  note F = bloom_New_fields [OF assms(1)]
  from withDefault_params [of ch opt] F(4) have pos: "0 < p_e (f_params f)" "0 < p_p (f_params f)"
    by simp_all
  have "f_k f = 0 \<or> 0 < f_s f"
    using derived_s_pos [OF F(1) pos(2) assms(2) pos(1)] by (simp add: F(5,6,7))
  moreover have "f_k f \<le> length (f_bs f)" "f_k f \<le> length (f_b f)"
    by (simp_all add: F(8,9) makePartitions_length)
  ultimately show ?thesis
    unfolding Filter_ready_iff using assms(3,4) by blast
qed

lemma default_Filter_ready:
  assumes "bloom_New fnv_New64 n [] = Inr f"
  shows "Filter_ready f"
proof -
  from bloom_New_fields(4) [OF assms] default_params [of fnv_New64]
  have fp: "f_params f = \<lparr>p_h = Some fnv_New64, p_e = 1 / 1000, p_p = 1 / 2\<rparr>" by simp
  show ?thesis
    by (rule bloom_New_ready [OF assms, of fnv_New64]) (simp_all add: fp fnv_digest_length)
qed

section \<open>C9: repeated reads\<close>

text \<open>
  Claim C9. From any state of a filter, after any number of \<^verbatim>\<open>Check\<close> calls (of any keys)
  with no \<^verbatim>\<open>Add\<close> or \<^verbatim>\<open>Reset\<close> in between, \<^verbatim>\<open>Check(x)\<close> gives the answer it gave before,
  although each call overwrites the scratch buffer and the hash state.
\<close>

theorem C9_repeated_Check:
  "Filter_run f (map FCheck ys) = Inr f' \<longrightarrow>
     map_sum id fst (Filter_Check f' x) = map_sum id fst (Filter_Check f x)"
proof
  assume "Filter_run f (map FCheck ys) = Inr f'"
  from Filter_same_answer [OF Checks_same [OF this]]
  show "map_sum id fst (Filter_Check f' x) = map_sum id fst (Filter_Check f x)" .
qed

text \<open>
  The statement at a filter of capacity 1 with the FNV hash that holds the key \<open>[7]\<close>:
  after three more checks the answer for \<open>[7]\<close> is still true.
\<close>

theorem C9_repeated_Check_witness:
  "\<exists>f f1 f'. bloom_New fnv_New64 1 [] = Inr f \<and> Filter_Add f [7] = Inr f1 \<and>
     Filter_run f1 (map FCheck [[7], [8], [7]]) = Inr f' \<and>
     map_sum id fst (Filter_Check f' [7]) = map_sum id fst (Filter_Check f1 [7]) \<and>
     map_sum id fst (Filter_Check f1 [7]) = Inr True"
proof -
  obtain f where f: "bloom_New fnv_New64 1 [] = Inr f"
    using bloom_New_Inr [of 1 fnv_New64 "[]"] by simp
  from Filter_step_ready [OF default_Filter_ready [OF f], of "FAdd [7]"] obtain f1 where
    f1: "Filter_Add f [7] = Inr f1" "Filter_ready f1" by auto
  from Filter_run_total [OF f1(2), of "map FCheck [[7], [8], [7]]"] obtain f' where
    r: "Filter_run f1 (map FCheck [[7], [8], [7]]) = Inr f'" by blast
  from Filter_holds_Check [OF Filter_Add_holds [OF f1(1)]]
  have t: "map_sum id fst (Filter_Check f1 [7]) = Inr True" by auto
  from C9_repeated_Check [of f1 "[[7], [8], [7]]" f' "[7]"] r
  have "map_sum id fst (Filter_Check f' [7]) = map_sum id fst (Filter_Check f1 [7])" by blast
  with f f1(1) r t show ?thesis by blast
qed


section \<open>Indices as the spec writes them\<close>

lemma Filter_bits_eq:
  "Filter_bits f item =
     (case p_h (f_params f) of
        None \<Rightarrow> Inl NilDereference
      | Some hh \<Rightarrow>
          if length (sum_fn hh item) < 8 then Inl SliceBounds
          else if length (f_bs f) < f_k f then Inl SliceBounds
          else if 0 < f_k f \<and> f_s f = 0 then Inl DivideByZero
          else Inr (f\<lparr>f_params := (f_params f)\<lparr>p_h := Some (hh\<lparr>written := item\<rparr>)\<rparr>,
                     f_bs := map (stored_index (sum_fn hh item) (f_s f)) [0..<f_k f]
                             @ drop (f_k f) (f_bs f)\<rparr>))"
  by (cases "p_h (f_params f)") (simp_all add: Filter_bits_def digest_bits_eq)

lemma PartitionedBloom_bits_eq:
  "PartitionedBloom_bits bf item =
     (case pb_h bf of
        None \<Rightarrow> Inl NilDereference
      | Some hh \<Rightarrow>
          if length (sum_fn hh item) < 8 then Inl SliceBounds
          else if length (pb_bs bf) < pb_k bf then Inl SliceBounds
          else if 0 < pb_k bf \<and> pb_s bf = 0 then Inl DivideByZero
          else Inr (bf\<lparr>pb_h := Some (hh\<lparr>written := item\<rparr>),
                      pb_bs := map (stored_index (sum_fn hh item) (pb_s bf)) [0..<pb_k bf]
                               @ drop (pb_k bf) (pb_bs bf)\<rparr>))"
  by (cases "pb_h bf") (simp_all add: PartitionedBloom_bits_def digest_bits_eq)

lemma indices_nth:
  assumes "i < k" "k \<le> 2 ^ 32"
  shows "(map (stored_index D s) [0..<k] @ rest) ! i = (digest_a D + i * digest_b D) mod s"
proof -
  from assms have "i < 2 ^ 32" by simp
  from stored_index_exact [OF this, of D s] assms(1) show ?thesis
    by (simp add: nth_append)
qed

lemma Set_loop_indices:
  assumes "k \<le> length parts" "k \<le> 2 ^ 32"
  shows "\<exists>parts'. Set_loop parts (map (stored_index D s) [0..<k]) = Inr parts' \<and>
           length parts' = length parts \<and>
           (\<forall>i<k. parts' ! i = BitSet_Set (parts ! i) ((digest_a D + i * digest_b D) mod s))"
proof -
  from Set_loop_total [of "map (stored_index D s) [0..<k]" parts] assms(1) obtain parts' where
    S: "Set_loop parts (map (stored_index D s) [0..<k]) = Inr parts'" by auto
  have "parts' ! i = BitSet_Set (parts ! i) ((digest_a D + i * digest_b D) mod s)" if "i < k" for i
  proof -
    from that assms(2) have "i < 2 ^ 32" by simp
    from stored_index_exact [OF this, of D s] Set_loop_nth [OF S, of i] that
    show ?thesis by simp
  qed
  with S Set_loop_length [OF S] show ?thesis by blast
qed

lemma Check_loop_indices:
  assumes "k \<le> length parts" "k \<le> 2 ^ 32"
  shows "Check_loop parts (map (stored_index D s) [0..<k])
           = Inr (list_all (\<lambda>i. BitSet_Test (parts ! i) ((digest_a D + i * digest_b D) mod s)) [0..<k])"
proof -
  have "list_all (\<lambda>i. BitSet_Test (parts ! i) (map (stored_index D s) [0..<k] ! i)) [0..<k]
        = list_all (\<lambda>i. BitSet_Test (parts ! i) ((digest_a D + i * digest_b D) mod s)) [0..<k]"
  proof -
    have "map (stored_index D s) [0..<k] ! i = (digest_a D + i * digest_b D) mod s" if "i < k" for i
    proof -
      from that assms(2) have "i < 2 ^ 32" by simp
      from stored_index_exact [OF this, of D s] that show ?thesis by simp
    qed
    then show ?thesis by (simp add: list_all_upt)
  qed
  with Check_loop_eq [of "map (stored_index D s) [0..<k]" parts] assms(1) show ?thesis by simp
qed

lemma Filter_indices:
  assumes "p_h (f_params f) = Some hh" "8 \<le> length (sum_fn hh item)"
    "f_k f \<le> length (f_bs f)" "f_k f \<le> length (f_b f)" "0 < f_s f" "f_k f \<le> 2 ^ 32"
  shows "\<exists>f1 f2 f3.
           Filter_bits f item = Inr f1 \<and> Filter_Add f item = Inr f2 \<and>
           Filter_Check f item
             = Inr (list_all (\<lambda>i. BitSet_Test (f_b f ! i)
                       ((digest_a (sum_fn hh item) + i * digest_b (sum_fn hh item)) mod f_s f))
                      [0..<f_k f], f3) \<and>
           (\<forall>i<f_k f.
              f_bs f1 ! i = (digest_a (sum_fn hh item) + i * digest_b (sum_fn hh item)) mod f_s f \<and>
              f_b f2 ! i = BitSet_Set (f_b f ! i)
                 ((digest_a (sum_fn hh item) + i * digest_b (sum_fn hh item)) mod f_s f))"
proof -
  define D where "D = sum_fn hh item"
  define f1 where "f1 = f\<lparr>f_params := (f_params f)\<lparr>p_h := Some (hh\<lparr>written := item\<rparr>)\<rparr>,
                     f_bs := map (stored_index D (f_s f)) [0..<f_k f] @ drop (f_k f) (f_bs f)\<rparr>"
  have b: "Filter_bits f item = Inr f1"
    using assms(1,2,3,5) by (simp add: Filter_bits_eq f1_def D_def)
  from Set_loop_indices [OF assms(4,6), of D "f_s f"] obtain parts where
    S: "Set_loop (f_b f) (map (stored_index D (f_s f)) [0..<f_k f]) = Inr parts" and
    P: "\<forall>i<f_k f. parts ! i = BitSet_Set (f_b f ! i) ((digest_a D + i * digest_b D) mod f_s f)"
    by blast
  define f2 where "f2 = f1\<lparr>f_b := parts, f_c := (f_c f1 + 1) mod 2 ^ 64\<rparr>"
  have a: "Filter_Add f item = Inr f2"
    using S by (simp add: Filter_Add_def b f1_def f2_def)
  have c: "Filter_Check f item
             = Inr (list_all (\<lambda>i. BitSet_Test (f_b f ! i) ((digest_a D + i * digest_b D) mod f_s f))
                      [0..<f_k f], f1)"
    using Check_loop_indices [OF assms(4,6), of D "f_s f"]
    by (simp add: Filter_Check_def b f1_def)
  have "f_bs f1 ! i = (digest_a D + i * digest_b D) mod f_s f" if "i < f_k f" for i
    using indices_nth [OF that assms(6), of D "f_s f"] by (simp add: f1_def)
  moreover have "f_b f2 ! i = BitSet_Set (f_b f ! i) ((digest_a D + i * digest_b D) mod f_s f)"
    if "i < f_k f" for i
    using P that by (simp add: f2_def)
  ultimately show ?thesis
    using b a c unfolding D_def by blast
qed

lemma PartitionedBloom_indices:
  assumes "pb_h bf = Some hh" "8 \<le> length (sum_fn hh item)"
    "pb_k bf \<le> length (pb_bs bf)" "pb_k bf \<le> length (pb_b bf)" "0 < pb_s bf" "pb_k bf \<le> 2 ^ 32"
  shows "\<exists>g1 g2 g3.
           PartitionedBloom_bits bf item = Inr g1 \<and> PartitionedBloom_Add bf item = Inr g2 \<and>
           PartitionedBloom_Check bf item
             = Inr (list_all (\<lambda>i. BitSet_Test (pb_b bf ! i)
                       ((digest_a (sum_fn hh item) + i * digest_b (sum_fn hh item)) mod pb_s bf))
                      [0..<pb_k bf], g3) \<and>
           (\<forall>i<pb_k bf.
              pb_bs g1 ! i = (digest_a (sum_fn hh item) + i * digest_b (sum_fn hh item)) mod pb_s bf \<and>
              pb_b g2 ! i = BitSet_Set (pb_b bf ! i)
                 ((digest_a (sum_fn hh item) + i * digest_b (sum_fn hh item)) mod pb_s bf))"
proof -
  define D where "D = sum_fn hh item"
  define g1 where "g1 = bf\<lparr>pb_h := Some (hh\<lparr>written := item\<rparr>),
                     pb_bs := map (stored_index D (pb_s bf)) [0..<pb_k bf] @ drop (pb_k bf) (pb_bs bf)\<rparr>"
  have b: "PartitionedBloom_bits bf item = Inr g1"
    using assms(1,2,3,5) by (simp add: PartitionedBloom_bits_eq g1_def D_def)
  from Set_loop_indices [OF assms(4,6), of D "pb_s bf"] obtain parts where
    S: "Set_loop (pb_b bf) (map (stored_index D (pb_s bf)) [0..<pb_k bf]) = Inr parts" and
    P: "\<forall>i<pb_k bf. parts ! i = BitSet_Set (pb_b bf ! i) ((digest_a D + i * digest_b D) mod pb_s bf)"
    by blast
  define g2 where "g2 = g1\<lparr>pb_b := parts, pb_c := (pb_c g1 + 1) mod 2 ^ 64\<rparr>"
  have a: "PartitionedBloom_Add bf item = Inr g2"
    using S by (simp add: PartitionedBloom_Add_def b g1_def g2_def)
  have c: "PartitionedBloom_Check bf item
             = Inr (list_all (\<lambda>i. BitSet_Test (pb_b bf ! i) ((digest_a D + i * digest_b D) mod pb_s bf))
                      [0..<pb_k bf], g1)"
    using Check_loop_indices [OF assms(4,6), of D "pb_s bf"]
    by (simp add: PartitionedBloom_Check_def b g1_def)
  have "pb_bs g1 ! i = (digest_a D + i * digest_b D) mod pb_s bf" if "i < pb_k bf" for i
    using indices_nth [OF that assms(6), of D "pb_s bf"] by (simp add: g1_def)
  moreover have "pb_b g2 ! i = BitSet_Set (pb_b bf ! i) ((digest_a D + i * digest_b D) mod pb_s bf)"
    if "i < pb_k bf" for i
    using P that by (simp add: g2_def)
  ultimately show ?thesis
    using b a c unfolding D_def by blast
qed

lemma or_push_bit_add:
  fixes x y :: nat
  assumes "x < 2 ^ n"
  shows "x OR push_bit n y = x + push_bit n y"
proof -
  have x: "take_bit n x = x" using assms by (rule take_bit_nat_eq_self)
  have "take_bit n x AND push_bit n y = 0"
    by (auto simp: bit_eq_iff bit_simps)
  then have "x AND push_bit n y = 0" by (simp only: x)
  then show ?thesis by (simp add: disjunctive_add_eq_or)
qed

lemma unat_byte_shift:
  fixes b :: byte
  assumes "n \<le> 24"
  shows "unat (push_bit n (ucast b :: 32 word)) = unat b * 2 ^ n"
proof -
  have b: "unat b < 2 ^ 8" using unsigned_less [of b, where 'a = nat] by simp
  have u: "unat (ucast b :: 32 word) = unat b"
    using b by (simp add: unsigned_ucast_eq take_bit_nat_eq_self)
  have "(2::nat) ^ n \<le> 2 ^ 24" using assms by (intro power_increasing) simp_all
  with b have "unat b * 2 ^ n < 2 ^ 8 * 2 ^ 24"
    by (intro mult_less_le_imp_less) simp_all
  then have lt: "unat b * 2 ^ n < 2 ^ 32" by simp
  have "unat (push_bit n (ucast b :: 32 word))
          = take_bit 32 (push_bit n (unat (ucast b :: 32 word)))"
    by (simp add: unsigned_push_bit_eq)
  also have "\<dots> = take_bit 32 (unat b * 2 ^ n)"
    by (simp only: u push_bit_eq_mult)
  also have "\<dots> = unat b * 2 ^ n"
    using lt by (rule take_bit_nat_eq_self)
  finally show ?thesis .
qed

lemma BigEndian_Uint32_value:
  "unat (BigEndian_Uint32 [b0, b1, b2, b3])
     = unat b0 * 2 ^ 24 + unat b1 * 2 ^ 16 + unat b2 * 2 ^ 8 + unat b3"
proof -
  define A B C E where "A = unat b3" and "B = unat b2 * 2 ^ 8" and "C = unat b1 * 2 ^ 16"
    and "E = unat b0 * 2 ^ 24"
  have s: "unat (push_bit 8 (ucast b2 :: 32 word)) = B"
    "unat (push_bit 16 (ucast b1 :: 32 word)) = C"
    "unat (push_bit 24 (ucast b0 :: 32 word)) = E"
    unfolding B_def C_def E_def by (rule unat_byte_shift, simp)+
  have u: "unat (ucast b3 :: 32 word) = A"
    unfolding A_def using unsigned_less [of b3, where 'a = nat]
    by (simp add: unsigned_ucast_eq take_bit_nat_eq_self)
  have l: "unat b3 < 2 ^ 8" "unat b2 < 2 ^ 8" "unat b1 < 2 ^ 8"
    using unsigned_less [of b3, where 'a = nat] unsigned_less [of b2, where 'a = nat]
      unsigned_less [of b1, where 'a = nat] by simp_all
  have e0: "unat (BigEndian_Uint32 [b0, b1, b2, b3]) = ((A OR B) OR C) OR E"
    by (simp add: BigEndian_Uint32_def unsigned_or_eq s u or.assoc)
  have e1: "A OR B = A + B"
    unfolding A_def B_def
    using or_push_bit_add [OF l(1), of "unat b2"] by (simp only: push_bit_eq_mult)
  have "A + B < 2 ^ 16" unfolding A_def B_def using l by simp
  from or_push_bit_add [OF this, of "unat b1"]
  have e2: "(A + B) OR C = A + B + C"
    unfolding C_def by (simp only: push_bit_eq_mult)
  have "A + B + C < 2 ^ 24" unfolding A_def B_def C_def using l by simp
  from or_push_bit_add [OF this, of "unat b0"]
  have e3: "(A + B + C) OR E = A + B + C + E"
    unfolding E_def by (simp only: push_bit_eq_mult)
  have "unat (BigEndian_Uint32 [b0, b1, b2, b3]) = A + B + C + E"
    by (simp only: e0 e1 e2 e3)
  then show ?thesis
    unfolding A_def B_def C_def E_def by simp
qed

lemma BigEndian_Uint32_first4:
  "BigEndian_Uint32 xs = BigEndian_Uint32 [xs ! 0, xs ! 1, xs ! 2, xs ! 3]"
  by (simp add: BigEndian_Uint32_def)

lemma digest_be32:
  assumes "8 \<le> length D"
  shows "digest_a D = be32 D 4" "digest_b D = be32 D 0"
proof -
  have "BigEndian_Uint32 (take 4 (drop 4 D)) = BigEndian_Uint32 [D ! 4, D ! 5, D ! 6, D ! 7]"
    using assms by (subst BigEndian_Uint32_first4) simp
  then show "digest_a D = be32 D 4"
    by (simp add: digest_a_def be32_def BigEndian_Uint32_value)
  have "BigEndian_Uint32 (take 4 D) = BigEndian_Uint32 [D ! 0, D ! 1, D ! 2, D ! 3]"
    using assms by (subst BigEndian_Uint32_first4) simp
  then show "digest_b D = be32 D 0"
    by (simp add: digest_b_def be32_def BigEndian_Uint32_value numeral_2_eq_2)
qed

lemma bloom_m_Suc_0: "bloom_m (Suc 0) (1 / 2) (1 / 1000) = 15"
  using bloom_m_1 by simp

lemma bloom_New_1:
  "bloom_New ch 1 [] =
     Inr \<lparr>f_params = \<lparr>p_h = Some ch, p_e = 1 / 1000, p_p = 1 / 2\<rparr>,
          f_m = 15, f_k = 10, f_n = 1, f_c = 0, f_s = 2,
          f_b = replicate 10 [False, False], f_bs = replicate 10 0\<rparr>"
  by (simp add: bloom_New_def default_params bloom_k_default bloom_m_Suc_0 bloom_s_15
      makePartitions_def bitset_New_def Let_def numeral_2_eq_2)

lemma partitioned_New_1:
  "partitioned_New 1 =
     \<lparr>pb_h = Some fnv_New64, pb_m = 15, pb_k = 10, pb_p = 1 / 2, pb_e = 1 / 1000, pb_n = 1,
      pb_c = 0, pb_s = 2, pb_b = replicate 10 [False, False], pb_bs = replicate 10 0\<rparr>"
  by (simp add: partitioned_New_def bloom_KMS bloom_k_default bloom_m_Suc_0 bloom_s_15
      makePartitions_def bitset_New_def Let_def numeral_2_eq_2)

section \<open>C5: the bit indices\<close>

text \<open>
  Claim C5. For a key whose digest \<open>D\<close> has at least eight bytes, with \<open>a\<close> the 32-bit
  big-endian value of bytes \<open>[4:8)\<close> and \<open>b\<close> that of bytes \<open>[0:4)\<close>, the index that
  \<^verbatim>\<open>bits\<close> stores for partition \<open>i\<close>, that \<^verbatim>\<open>Add\<close> sets and that \<^verbatim>\<open>Check\<close> tests is
  \<open>(a + i * b) mod s\<close>, for every \<open>i < k\<close>. This holds for \<^verbatim>\<open>Filter\<close> and for
  \<^verbatim>\<open>PartitionedBloom\<close>, for a filter whose buffer and partitions are as many as \<open>k\<close>,
  with \<open>s > 0\<close> and \<open>k\<close> at most \<open>2 ^ 32\<close> (so that the 64-bit sum does not wrap).
\<close>

theorem C5_bit_indices:
  "(p_h (f_params f) = Some hh \<longrightarrow> 8 \<le> length (sum_fn hh item) \<longrightarrow>
    f_k f \<le> length (f_bs f) \<longrightarrow> f_k f \<le> length (f_b f) \<longrightarrow> 0 < f_s f \<longrightarrow> f_k f \<le> 2 ^ 32 \<longrightarrow>
      (\<exists>f1 f2 f3.
         Filter_bits f item = Inr f1 \<and> Filter_Add f item = Inr f2 \<and>
         Filter_Check f item
           = Inr (list_all (\<lambda>i. BitSet_Test (f_b f ! i)
                     ((be32 (sum_fn hh item) 4 + i * be32 (sum_fn hh item) 0) mod f_s f))
                    [0..<f_k f], f3) \<and>
         (\<forall>i<f_k f.
            f_bs f1 ! i = (be32 (sum_fn hh item) 4 + i * be32 (sum_fn hh item) 0) mod f_s f \<and>
            f_b f2 ! i = BitSet_Set (f_b f ! i)
               ((be32 (sum_fn hh item) 4 + i * be32 (sum_fn hh item) 0) mod f_s f)))) \<and>
   (pb_h bf = Some hg \<longrightarrow> 8 \<le> length (sum_fn hg item) \<longrightarrow>
    pb_k bf \<le> length (pb_bs bf) \<longrightarrow> pb_k bf \<le> length (pb_b bf) \<longrightarrow> 0 < pb_s bf \<longrightarrow>
    pb_k bf \<le> 2 ^ 32 \<longrightarrow>
      (\<exists>g1 g2 g3.
         PartitionedBloom_bits bf item = Inr g1 \<and> PartitionedBloom_Add bf item = Inr g2 \<and>
         PartitionedBloom_Check bf item
           = Inr (list_all (\<lambda>i. BitSet_Test (pb_b bf ! i)
                     ((be32 (sum_fn hg item) 4 + i * be32 (sum_fn hg item) 0) mod pb_s bf))
                    [0..<pb_k bf], g3) \<and>
         (\<forall>i<pb_k bf.
            pb_bs g1 ! i = (be32 (sum_fn hg item) 4 + i * be32 (sum_fn hg item) 0) mod pb_s bf \<and>
            pb_b g2 ! i = BitSet_Set (pb_b bf ! i)
               ((be32 (sum_fn hg item) 4 + i * be32 (sum_fn hg item) 0) mod pb_s bf))))"
proof (intro conjI impI)
  assume a: "p_h (f_params f) = Some hh" "8 \<le> length (sum_fn hh item)"
    "f_k f \<le> length (f_bs f)" "f_k f \<le> length (f_b f)" "0 < f_s f" "f_k f \<le> 2 ^ 32"
  from Filter_indices [OF a] digest_be32 [OF a(2)]
  show "\<exists>f1 f2 f3.
         Filter_bits f item = Inr f1 \<and> Filter_Add f item = Inr f2 \<and>
         Filter_Check f item
           = Inr (list_all (\<lambda>i. BitSet_Test (f_b f ! i)
                     ((be32 (sum_fn hh item) 4 + i * be32 (sum_fn hh item) 0) mod f_s f))
                    [0..<f_k f], f3) \<and>
         (\<forall>i<f_k f.
            f_bs f1 ! i = (be32 (sum_fn hh item) 4 + i * be32 (sum_fn hh item) 0) mod f_s f \<and>
            f_b f2 ! i = BitSet_Set (f_b f ! i)
               ((be32 (sum_fn hh item) 4 + i * be32 (sum_fn hh item) 0) mod f_s f))"
    by simp
next
  assume a: "pb_h bf = Some hg" "8 \<le> length (sum_fn hg item)"
    "pb_k bf \<le> length (pb_bs bf)" "pb_k bf \<le> length (pb_b bf)" "0 < pb_s bf" "pb_k bf \<le> 2 ^ 32"
  from PartitionedBloom_indices [OF a] digest_be32 [OF a(2)]
  show "\<exists>g1 g2 g3.
         PartitionedBloom_bits bf item = Inr g1 \<and> PartitionedBloom_Add bf item = Inr g2 \<and>
         PartitionedBloom_Check bf item
           = Inr (list_all (\<lambda>i. BitSet_Test (pb_b bf ! i)
                     ((be32 (sum_fn hg item) 4 + i * be32 (sum_fn hg item) 0) mod pb_s bf))
                    [0..<pb_k bf], g3) \<and>
         (\<forall>i<pb_k bf.
            pb_bs g1 ! i = (be32 (sum_fn hg item) 4 + i * be32 (sum_fn hg item) 0) mod pb_s bf \<and>
            pb_b g2 ! i = BitSet_Set (pb_b bf ! i)
               ((be32 (sum_fn hg item) 4 + i * be32 (sum_fn hg item) 0) mod pb_s bf))"
    by simp
qed


text \<open>
  The statement at \<^verbatim>\<open>New(1)\<close> with the FNV hash and at \<^verbatim>\<open>partitioned.New(1)\<close>, for the
  key \<open>[7]\<close>.
\<close>

theorem C5_bit_indices_witness:
  "\<exists>f. bloom_New fnv_New64 1 [] = Inr f \<and>
     p_h (f_params f) = Some fnv_New64 \<and> 8 \<le> length (sum_fn fnv_New64 [7]) \<and>
     f_k f \<le> length (f_bs f) \<and> f_k f \<le> length (f_b f) \<and> 0 < f_s f \<and> f_k f \<le> 2 ^ 32 \<and>
     (\<exists>f1 f2 f3.
         Filter_bits f [7] = Inr f1 \<and> Filter_Add f [7] = Inr f2 \<and>
         Filter_Check f [7]
           = Inr (list_all (\<lambda>i. BitSet_Test (f_b f ! i)
                     ((be32 (sum_fn fnv_New64 [7]) 4 + i * be32 (sum_fn fnv_New64 [7]) 0) mod f_s f))
                    [0..<f_k f], f3) \<and>
         (\<forall>i<f_k f.
            f_bs f1 ! i = (be32 (sum_fn fnv_New64 [7]) 4 + i * be32 (sum_fn fnv_New64 [7]) 0) mod f_s f \<and>
            f_b f2 ! i = BitSet_Set (f_b f ! i)
               ((be32 (sum_fn fnv_New64 [7]) 4 + i * be32 (sum_fn fnv_New64 [7]) 0) mod f_s f))) \<and>
     pb_h (partitioned_New 1) = Some fnv_New64 \<and>
     pb_k (partitioned_New 1) \<le> length (pb_bs (partitioned_New 1)) \<and>
     pb_k (partitioned_New 1) \<le> length (pb_b (partitioned_New 1)) \<and>
     0 < pb_s (partitioned_New 1) \<and> pb_k (partitioned_New 1) \<le> 2 ^ 32 \<and>
     (\<exists>g1 g2 g3.
         PartitionedBloom_bits (partitioned_New 1) [7] = Inr g1 \<and>
         PartitionedBloom_Add (partitioned_New 1) [7] = Inr g2 \<and>
         PartitionedBloom_Check (partitioned_New 1) [7]
           = Inr (list_all (\<lambda>i. BitSet_Test (pb_b (partitioned_New 1) ! i)
                     ((be32 (sum_fn fnv_New64 [7]) 4 + i * be32 (sum_fn fnv_New64 [7]) 0)
                        mod pb_s (partitioned_New 1)))
                    [0..<pb_k (partitioned_New 1)], g3) \<and>
         (\<forall>i<pb_k (partitioned_New 1).
            pb_bs g1 ! i = (be32 (sum_fn fnv_New64 [7]) 4 + i * be32 (sum_fn fnv_New64 [7]) 0)
                              mod pb_s (partitioned_New 1) \<and>
            pb_b g2 ! i = BitSet_Set (pb_b (partitioned_New 1) ! i)
               ((be32 (sum_fn fnv_New64 [7]) 4 + i * be32 (sum_fn fnv_New64 [7]) 0)
                  mod pb_s (partitioned_New 1))))"
proof -
  define f where "f = \<lparr>f_params = \<lparr>p_h = Some fnv_New64, p_e = 1 / 1000, p_p = 1 / 2\<rparr>,
          f_m = 15, f_k = 10, f_n = 1, f_c = 0, f_s = 2,
          f_b = replicate 10 [False, False], f_bs = replicate 10 0\<rparr>"
  have N: "bloom_New fnv_New64 1 [] = Inr f"
    unfolding f_def by (rule bloom_New_1)
  have h: "p_h (f_params f) = Some fnv_New64" "8 \<le> length (sum_fn fnv_New64 [7])"
    "f_k f \<le> length (f_bs f)" "f_k f \<le> length (f_b f)" "0 < f_s f" "f_k f \<le> 2 ^ 32"
    by (simp_all add: f_def fnv_digest_length)
  have g: "pb_h (partitioned_New 1) = Some fnv_New64"
    "pb_k (partitioned_New 1) \<le> length (pb_bs (partitioned_New 1))"
    "pb_k (partitioned_New 1) \<le> length (pb_b (partitioned_New 1))"
    "0 < pb_s (partitioned_New 1)" "pb_k (partitioned_New 1) \<le> 2 ^ 32"
    unfolding partitioned_New_1 by simp_all
  note C = C5_bit_indices [of f fnv_New64 "[7]" "partitioned_New 1" fnv_New64]
  from C [THEN conjunct1, rule_format, OF h] C [THEN conjunct2, rule_format, OF g(1) h(2) g(2-5)]
    N h g
  show ?thesis by blast
qed

section \<open>C6: defaults for the error rate and the fill ratio\<close>




section \<open>Runs on concrete filters\<close>

lemma fnv_empty: "sum_fn fnv_New64 [] = [203, 242, 156, 228, 132, 34, 35, 37]"
  by (simp add: fnv_New64_def fnv64_Sum_def fnv64_Write_def offset64_def)

lemma digest_fnv_empty:
  "digest_a [203, 242, 156, 228, 132, 34, 35, 37] = 2216829733"
  "digest_b [203, 242, 156, 228, 132, 34, 35, 37] = 3421674724"
  by (simp_all add: digest_a_def digest_b_def BigEndian_Uint32_def)



lemma dvd64: "(2::nat) dvd 2 ^ 64"
  by simp

lemma odd_index: "(2216829733 + 3421674724 * i) mod (2::nat) = 1"
proof -
  have "odd (2216829733 + 3421674724 * i :: nat)" by simp
  then show ?thesis by (simp only: odd_iff_mod_2_eq_one)
qed

lemma stored_fnv_empty: "stored_index (sum_fn fnv_New64 []) 2 i = 1"
proof -
  have "(digest_a (sum_fn fnv_New64 []) + digest_b (sum_fn fnv_New64 []) * i) mod 2 ^ 64 mod 2
          = (digest_a (sum_fn fnv_New64 []) + digest_b (sum_fn fnv_New64 []) * i) mod 2"
    using dvd64 by (rule mod_mod_cancel)
  also have "\<dots> = 1"
    unfolding fnv_empty digest_fnv_empty by (rule odd_index)
  finally show ?thesis
    unfolding stored_index_def .
qed



lemma Set_loop_replicate:
  "Set_loop (replicate n v) (replicate n i) = Inr (replicate n (BitSet_Set v i))"
  by (induction n) simp_all


lemma map_const_upt: "map (\<lambda>i. c) [0..<n] = replicate n c"
  by (induction n) (simp_all add: replicate_append_same)


lemma map_stored_fnv_empty:
  "map (stored_index (sum_fn fnv_New64 []) 2) xs = replicate (length xs) 1"
  by (induction xs) (simp_all add: stored_fnv_empty)


lemma bits_once:
  "PartitionedBloom_bits (partitioned_New 1) [] =
     Inr \<lparr>pb_h = Some (fnv_New64\<lparr>written := []\<rparr>), pb_m = 15, pb_k = 10, pb_p = 1 / 2,
          pb_e = 1 / 1000, pb_n = 1, pb_c = 0, pb_s = 2,
          pb_b = replicate 10 [False, False], pb_bs = replicate 10 1\<rparr>"
  unfolding partitioned_New_1 PartitionedBloom_bits_eq
  by (simp add: fnv_digest_length map_stored_fnv_empty)

lemma Add_once:
  "PartitionedBloom_Add (partitioned_New 1) [] =
     Inr \<lparr>pb_h = Some (fnv_New64\<lparr>written := []\<rparr>), pb_m = 15, pb_k = 10, pb_p = 1 / 2,
          pb_e = 1 / 1000, pb_n = 1, pb_c = 1, pb_s = 2,
          pb_b = replicate 10 [False, True], pb_bs = replicate 10 1\<rparr>"
  unfolding PartitionedBloom_Add_def bits_once
  by (simp add: Set_loop_replicate BitSet_Set_def)


lemma Reset_after_Add:
  "PartitionedBloom_Reset
     \<lparr>pb_h = Some (fnv_New64\<lparr>written := []\<rparr>), pb_m = 15, pb_k = 10, pb_p = 1 / 2,
      pb_e = 1 / 1000, pb_n = 1, pb_c = 1, pb_s = 2,
      pb_b = replicate 10 [False, True], pb_bs = replicate 10 1\<rparr>
   = \<lparr>pb_h = Some (fnv_New64\<lparr>written := []\<rparr>), pb_m = 15, pb_k = 10, pb_p = 1 / 2,
      pb_e = 1 / 1000, pb_n = 1, pb_c = 1, pb_s = 2,
      pb_b = replicate 10 [False, False], pb_bs = replicate 10 0\<rparr>"
  unfolding PartitionedBloom_Reset_def
  by (simp add: bloom_KMS bloom_k_default bloom_m_Suc_0 bloom_s_15 makePartitions_def
      bitset_New_def hash_Reset_def numeral_2_eq_2)



lemma partitioned_New_0:
  "partitioned_New 0 =
     \<lparr>pb_h = Some fnv_New64, pb_m = 0, pb_k = 10, pb_p = 1 / 2, pb_e = 1 / 1000, pb_n = 0,
      pb_c = 0, pb_s = 0, pb_b = replicate 10 [], pb_bs = replicate 10 0\<rparr>"
  by (simp add: partitioned_New_def bloom_KMS bloom_k_default bloom_m_0 bloom_s_0
      makePartitions_def bitset_New_def Let_def)

lemma Add_on_zero: "PartitionedBloom_Add (partitioned_New 0) item = Inl DivideByZero"
  unfolding PartitionedBloom_Add_def PartitionedBloom_bits_eq partitioned_New_0
  by (simp add: fnv_digest_length)

lemma NewScalable_zero: "NewScalable ch 0 opt = Inl PanicNZero"
  by (simp add: NewScalable_def)

section \<open>C4: construction with capacity zero\<close>

text \<open>
  Claim C4. Construction of a filter with \<open>n = 0\<close> panics and returns no object, for each
  constructor. \<^verbatim>\<open>New\<close> and \<^verbatim>\<open>NewScalable\<close> of package \<^verbatim>\<open>bloom\<close> do panic.
  \<^verbatim>\<open>partitioned.New\<close> has no such check: \<^verbatim>\<open>partitioned.New(0)\<close> returns a filter
  with ten partitions of length zero, on which every \<^verbatim>\<open>Add\<close> panics with an integer
  division by zero.
\<close>

theorem C4_partitioned_New_zero:
  "bloom_New ch 0 opt = Inl PanicNZero \<and> NewScalable ch 0 opt = Inl PanicNZero \<and>
   partitioned_New 0 =
     \<lparr>pb_h = Some fnv_New64, pb_m = 0, pb_k = 10, pb_p = 1 / 2, pb_e = 1 / 1000, pb_n = 0,
      pb_c = 0, pb_s = 0, pb_b = replicate 10 [], pb_bs = replicate 10 0\<rparr> \<and>
   PartitionedBloom_Add (partitioned_New 0) item = Inl DivideByZero"
  using bloom_New_zero [of ch opt] NewScalable_zero [of ch opt] partitioned_New_0
    Add_on_zero [of item]
  by blast

section \<open>Add followed by Reset\<close>

lemma Partitioned_Add_Reset:
  "Partitioned_run (partitioned_New 1) [PAdd [], PReset] =
     Inr \<lparr>pb_h = Some (fnv_New64\<lparr>written := []\<rparr>), pb_m = 15, pb_k = 10, pb_p = 1 / 2,
          pb_e = 1 / 1000, pb_n = 1, pb_c = 1, pb_s = 2,
          pb_b = replicate 10 [False, False], pb_bs = replicate 10 0\<rparr>"
proof -
  have "Partitioned_run (partitioned_New 1) [PAdd [], PReset]
          = Inr (PartitionedBloom_Reset
              \<lparr>pb_h = Some (fnv_New64\<lparr>written := []\<rparr>), pb_m = 15, pb_k = 10, pb_p = 1 / 2,
               pb_e = 1 / 1000, pb_n = 1, pb_c = 1, pb_s = 2,
               pb_b = replicate 10 [False, True], pb_bs = replicate 10 1\<rparr>)"
    unfolding Partitioned_run.simps Partitioned_step.simps Add_once by simp
  then show ?thesis by (simp only: Reset_after_Add)
qed

lemma Filter_bits_once:
  "Filter_bits \<lparr>f_params = \<lparr>p_h = Some fnv_New64, p_e = 1 / 1000, p_p = 1 / 2\<rparr>,
          f_m = 15, f_k = 10, f_n = 1, f_c = 0, f_s = 2,
          f_b = replicate 10 [False, False], f_bs = replicate 10 0\<rparr> []
   = Inr \<lparr>f_params = \<lparr>p_h = Some (fnv_New64\<lparr>written := []\<rparr>), p_e = 1 / 1000, p_p = 1 / 2\<rparr>,
          f_m = 15, f_k = 10, f_n = 1, f_c = 0, f_s = 2,
          f_b = replicate 10 [False, False], f_bs = replicate 10 1\<rparr>"
  unfolding Filter_bits_eq
  by (simp add: fnv_digest_length map_stored_fnv_empty)

lemma Filter_Add_once:
  "Filter_Add \<lparr>f_params = \<lparr>p_h = Some fnv_New64, p_e = 1 / 1000, p_p = 1 / 2\<rparr>,
          f_m = 15, f_k = 10, f_n = 1, f_c = 0, f_s = 2,
          f_b = replicate 10 [False, False], f_bs = replicate 10 0\<rparr> []
   = Inr \<lparr>f_params = \<lparr>p_h = Some (fnv_New64\<lparr>written := []\<rparr>), p_e = 1 / 1000, p_p = 1 / 2\<rparr>,
          f_m = 15, f_k = 10, f_n = 1, f_c = 1, f_s = 2,
          f_b = replicate 10 [False, True], f_bs = replicate 10 1\<rparr>"
  unfolding Filter_Add_def Filter_bits_once
  by (simp add: Set_loop_replicate BitSet_Set_def)

lemma Filter_Reset_after_Add:
  "Filter_Reset \<lparr>f_params = \<lparr>p_h = Some (fnv_New64\<lparr>written := []\<rparr>), p_e = 1 / 1000, p_p = 1 / 2\<rparr>,
          f_m = 15, f_k = 10, f_n = 1, f_c = 1, f_s = 2,
          f_b = replicate 10 [False, True], f_bs = replicate 10 1\<rparr>
   = Inr \<lparr>f_params = \<lparr>p_h = Some (fnv_New64\<lparr>written := []\<rparr>), p_e = 1 / 1000, p_p = 1 / 2\<rparr>,
          f_m = 15, f_k = 10, f_n = 1, f_c = 1, f_s = 2,
          f_b = replicate 10 [False, False], f_bs = replicate 10 1\<rparr>"
  unfolding Filter_Reset_def
  by (simp add: BitSet_ClearAll_def hash_Reset_def)

lemma Filter_Add_Reset:
  "(case bloom_New fnv_New64 1 [] of
      Inl err \<Rightarrow> Inl err
    | Inr f \<Rightarrow> Filter_run f [FAdd [], FReset])
   = Inr \<lparr>f_params = \<lparr>p_h = Some (fnv_New64\<lparr>written := []\<rparr>), p_e = 1 / 1000, p_p = 1 / 2\<rparr>,
          f_m = 15, f_k = 10, f_n = 1, f_c = 1, f_s = 2,
          f_b = replicate 10 [False, False], f_bs = replicate 10 1\<rparr>"
  unfolding bloom_New_1 sum.case Filter_run.simps Filter_step.simps Filter_Add_once
    Filter_Reset_after_Add
  by (rule refl)

lemma Filter_Reset_counter:
  "map_sum id f_c (Filter_Reset f) = map_sum id (\<lambda>g. f_c f) (Filter_Reset f)"
  by (cases "p_h (f_params f)") (simp_all add: Filter_Reset_def)

section \<open>C3: Reset and the insertion counter\<close>

text \<open>
  Claim C3. \<^verbatim>\<open>Reset()\<close> of a partitioned filter recomputes \<open>k\<close>, \<open>m\<close>, \<open>s\<close>, leaves every
  partition all-zero, sets the insertion counter \<open>c\<close> to 0 and resets the hash. The
  counter is not set: after \<^verbatim>\<open>Add\<close> and \<^verbatim>\<open>Reset\<close>, on \<^verbatim>\<open>partitioned.New(1)\<close> and on
  \<^verbatim>\<open>New(1)\<close> alike, every partition is all-zero and \<open>c\<close> is still 1. \<^verbatim>\<open>Reset\<close> of either
  type leaves \<open>c\<close> as it was, in every state.
\<close>

theorem C3_Reset_keeps_counter:
  "map_sum id pb_c (Partitioned_run (partitioned_New 1) [PAdd [], PReset]) = Inr 1 \<and>
   map_sum id pb_b (Partitioned_run (partitioned_New 1) [PAdd [], PReset])
     = Inr (replicate 10 [False, False]) \<and>
   map_sum id f_c (case bloom_New fnv_New64 1 [] of
                     Inl err \<Rightarrow> Inl err
                   | Inr f \<Rightarrow> Filter_run f [FAdd [], FReset]) = Inr 1 \<and>
   map_sum id f_b (case bloom_New fnv_New64 1 [] of
                     Inl err \<Rightarrow> Inl err
                   | Inr f \<Rightarrow> Filter_run f [FAdd [], FReset])
     = Inr (replicate 10 [False, False]) \<and>
   pb_c (PartitionedBloom_Reset bf) = pb_c bf \<and>
   map_sum id f_c (Filter_Reset f) = map_sum id (\<lambda>g. f_c f) (Filter_Reset f)"
proof -
  have "pb_c (PartitionedBloom_Reset bf) = pb_c bf"
    by (simp add: PartitionedBloom_Reset_def Let_def)
  then show ?thesis
    unfolding Partitioned_Add_Reset Filter_Add_Reset
    using Filter_Reset_counter [of f] by simp
qed

section \<open>Effect of the setters\<close>




section \<open>C8: the setters of the partitioned filter\<close>



end
